theory Spec2Isabelle
  imports Main "HOL-Library.Sublist"
begin

section \<open>The page as the script sees it\<close>

text \<open>
  The script of \<^verbatim>\<open>astro.config.mjs\<close> (the \<^verbatim>\<open>content\<close> of the third
  \<^verbatim>\<open>head\<close> entry) works on the browser's DOM. A DOM node is a text node or an
  element with a tag name, a class list, attributes, inline style properties and
  children in document order.
\<close>

datatype node =
    Text string
  | Elem string "string list" "(string \<times> string) list" "(string \<times> string) list" "node list"

fun has_class :: "string \<Rightarrow> node \<Rightarrow> bool" where
  "has_class c (Text t) = False"
| "has_class c (Elem tg cl at st ks) = (c \<in> set cl)"

fun has_tag :: "string \<Rightarrow> node \<Rightarrow> bool" where
  "has_tag n (Text t) = False"
| "has_tag n (Elem tg cl at st ks) = (tg = n)"

fun getAttribute :: "node \<Rightarrow> string \<Rightarrow> string option" where
  "getAttribute (Text t) a = None"
| "getAttribute (Elem tg cl at st ks) a = map_of at a"

fun children :: "node \<Rightarrow> node list" where
  "children (Text t) = []"
| "children (Elem tg cl at st ks) = ks"

definition removeAttr :: "string \<Rightarrow> (string \<times> string) list \<Rightarrow> (string \<times> string) list" where
  "removeAttr a at = filter (\<lambda>kv. fst kv \<noteq> a) at"

fun removeAttribute :: "string \<Rightarrow> node \<Rightarrow> node" where
  "removeAttribute a (Text t) = Text t"
| "removeAttribute a (Elem tg cl at st ks) = Elem tg cl (removeAttr a at) st ks"

text \<open>
  \<^verbatim>\<open>el.textContent\<close> read: the text of all descendants, concatenated.
  \<^verbatim>\<open>el.textContent = s\<close> written: every child is removed, and one text node
  holding \<open>s\<close> is put in their place unless \<open>s\<close> is empty.
\<close>

fun textContent :: "node \<Rightarrow> string" where
  "textContent (Text t) = t"
| "textContent (Elem tg cl at st ks) = concat (map textContent ks)"

definition text_nodes :: "string \<Rightarrow> node list" where
  "text_nodes s = (if s = [] then [] else [Text s])"

fun set_textContent :: "string \<Rightarrow> node \<Rightarrow> node" where
  "set_textContent s (Text t) = Text s"
| "set_textContent s (Elem tg cl at st ks) = Elem tg cl at st (text_nodes s)"

subsection \<open>Selectors\<close>

text \<open>
  \<^verbatim>\<open>root.querySelectorAll(sel)\<close> for a simple selector: the elements below
  \<open>root\<close> that match, in document order. \<open>qsa_incl\<close> also tries the root itself, as
  \<^verbatim>\<open>document.querySelectorAll\<close> does with the document element.
\<close>

fun qsa_incl :: "(node \<Rightarrow> bool) \<Rightarrow> node \<Rightarrow> node list" where
  "qsa_incl P (Text t) = []"
| "qsa_incl P (Elem tg cl at st ks) =
     (if P (Elem tg cl at st ks) then [Elem tg cl at st ks] else []) @ concat (map (qsa_incl P) ks)"

definition querySelectorAll :: "(node \<Rightarrow> bool) \<Rightarrow> node \<Rightarrow> node list" where
  "querySelectorAll P n = concat (map (qsa_incl P) (children n))"

definition querySelector :: "(node \<Rightarrow> bool) \<Rightarrow> node \<Rightarrow> node option" where
  "querySelector P n = (case querySelectorAll P n of [] \<Rightarrow> None | x # xs \<Rightarrow> Some x)"

text \<open>The selectors of the script.\<close>

definition sel_mermaid :: "node \<Rightarrow> bool" where
  "sel_mermaid = has_class ''mermaid''"

definition sel_container :: "node \<Rightarrow> bool" where
  "sel_container = has_class ''mermaid-container''"

definition sel_code :: "node \<Rightarrow> bool" where
  "sel_code = has_tag ''code''"

definition sel_pre_mermaid :: "node \<Rightarrow> bool" where
  "sel_pre_mermaid n = (has_tag ''pre'' n \<and> getAttribute n ''data-language'' = Some ''mermaid'')"

text \<open>
  \<^verbatim>\<open>document.querySelectorAll('.mermaid svg')\<close>: the \<^verbatim>\<open>svg\<close> elements that have a
  proper ancestor of class \<^verbatim>\<open>mermaid\<close>. The flag says whether such an ancestor has
  been passed on the way down.
\<close>

fun qsa_mermaid_svg :: "bool \<Rightarrow> node \<Rightarrow> node list" where
  "qsa_mermaid_svg inm (Text t) = []"
| "qsa_mermaid_svg inm (Elem tg cl at st ks) =
     (if inm \<and> tg = ''svg'' then [Elem tg cl at st ks] else [])
     @ concat (map (qsa_mermaid_svg (inm \<or> ''mermaid'' \<in> set cl)) ks)"

subsection \<open>Numbers in attributes\<close>

text \<open>
  \<^verbatim>\<open>parseInt(s)\<close> with no radix: leading white space is skipped, a sign is read, a
  \<^verbatim>\<open>0x\<close> prefix selects radix 16, and the longest prefix of digits is the value;
  with no digit the result is \<^verbatim>\<open>NaN\<close>, here \<open>None\<close>. Of JavaScript's white space
  the ASCII characters are modelled, and the value is the exact integer (a JavaScript number
  is exact up to \<open>2^53\<close>).
  \<^verbatim>\<open>getAttribute\<close> of a missing attribute is \<^verbatim>\<open>null\<close>, which
  \<^verbatim>\<open>parseInt\<close> reads as the string \<^verbatim>\<open>"null"\<close>.
\<close>

definition js_space :: "char \<Rightarrow> bool" where
  "js_space c = (c \<in> set [CHR '' '', CHR 0x09, CHR 0x0A, CHR 0x0B, CHR 0x0C, CHR 0x0D])"

definition digit_of :: "char \<Rightarrow> nat option" where
  "digit_of c =
     (let n = (of_char c :: nat) in
      if 48 \<le> n \<and> n \<le> 57 then Some (n - 48)
      else if 97 \<le> n \<and> n \<le> 122 then Some (n - 87)
      else if 65 \<le> n \<and> n \<le> 90 then Some (n - 55)
      else None)"

fun digits_prefix :: "nat \<Rightarrow> string \<Rightarrow> nat list" where
  "digits_prefix r [] = []"
| "digits_prefix r (c # cs) =
     (case digit_of c of
        None \<Rightarrow> []
      | Some d \<Rightarrow> if d < r then d # digits_prefix r cs else [])"

definition read_sign :: "string \<Rightarrow> bool \<times> string" where
  "read_sign s =
     (case s of
        [] \<Rightarrow> (False, [])
      | c # r \<Rightarrow> if c = CHR ''-'' then (True, r) else if c = CHR ''+'' then (False, r) else (False, s))"

definition read_radix :: "string \<Rightarrow> nat \<times> string" where
  "read_radix s =
     (case s of
        a # b # r \<Rightarrow> if a = CHR ''0'' \<and> (b = CHR ''x'' \<or> b = CHR ''X'') then (16, r) else (10, s)
      | _ \<Rightarrow> (10, s))"

definition parseInt :: "string \<Rightarrow> int option" where
  "parseInt s =
     (let (neg, s2) = read_sign (dropWhile js_space s);
          (radix, s3) = read_radix s2;
          ds = digits_prefix radix s3;
          v = int (foldl (\<lambda>a d. a * radix + d) 0 ds)
      in if ds = [] then None else Some (if neg then - v else v))"

definition block_index :: "node \<Rightarrow> int option" where
  "block_index n =
     parseInt (case getAttribute n ''data-block-index'' of None \<Rightarrow> ''null'' | Some v \<Rightarrow> v)"

text \<open>
  \<^verbatim>\<open>window.mermaidSources[index]\<close>: \<^verbatim>\<open>undefined\<close> (\<open>None\<close>) when the index is
  \<^verbatim>\<open>NaN\<close>, negative or beyond the end of the array.
\<close>

definition source_at :: "string list \<Rightarrow> int option \<Rightarrow> string option" where
  "source_at srcs index =
     (case index of
        None \<Rightarrow> None
      | Some i \<Rightarrow> if 0 \<le> i \<and> nat i < length srcs then Some (srcs ! nat i) else None)"

text \<open>\<^verbatim>\<open>String(n)\<close> for an array index: its decimal digits.\<close>

fun show_nat :: "nat \<Rightarrow> string" where
  "show_nat n = (if n < 10 then [char_of (48 + n)] else show_nat (n div 10) @ [char_of (48 + n mod 10)])"

declare show_nat.simps [simp del]

section \<open>The browser, the diagramming engine and the pan/zoom library\<close>

text \<open>
  What the script calls and does not define is a parameter of the model:
  \<^item> \<open>innerText\<close>: the browser's \<^verbatim>\<open>el.innerText\<close>, which depends on layout;
  \<^item> \<open>getBBox_height\<close>: \<^verbatim>\<open>svg.getBBox().height\<close>, here in whole pixels;
  \<^item> \<open>svgPanZoom_throws\<close>: whether \<^verbatim>\<open>svgPanZoom(svg, ...)\<close> throws for this graphic
    (what the library does inside a graphic it accepts is its own business);
  \<^item> \<open>mermaid_run\<close>: \<^verbatim>\<open>mermaid.run({nodes})\<close>, given the configuration last passed to
    \<^verbatim>\<open>mermaid.initialize\<close>, the nodes and the document: the document it leaves and
    whether its promise resolves (\<open>True\<close>) or rejects (\<open>False\<close>).
\<close>

record config =
  startOnLoad :: bool
  theme :: string
  logLevel :: string

record env =
  innerText :: "node \<Rightarrow> string"
  getBBox_height :: "node \<Rightarrow> nat"
  svgPanZoom_throws :: "node \<Rightarrow> bool"
  mermaid_run :: "config option \<Rightarrow> node list \<Rightarrow> node \<Rightarrow> node \<times> bool"

text \<open>The lines the script writes to the console, and its calls into the engine.\<close>

datatype console_line =
    LogRenderingTheme string
  | LogRendering nat
  | LogRenderingComplete
  | ErrRenderingFailed
  | LogZoomEnabled nat nat
  | ErrZoomFailed
  | LogStarting
  | LogFound nat
  | LogBlock nat string
  | LogThemeChanged

datatype engine_call = Initialize config | Run "node list"

text \<open>
  An invocation of \<^verbatim>\<open>renderMermaidDiagrams\<close> that has started and not returned is
  suspended at one of its two \<^verbatim>\<open>await\<close>s: the 50 ms delay, or the batch call, whose
  outcome it will see when it resumes.
\<close>

datatype stage = AwaitingDelay | AwaitingRun bool

text \<open>
  The page while the script runs: the tree of the document element; the
  \<^verbatim>\<open>data-theme\<close> attribute of the document element, kept beside the tree
  (\<open>None\<close>: absent); \<^verbatim>\<open>window.mermaidSources\<close>; the configuration the engine was
  last initialised with; the invocations of \<^verbatim>\<open>renderMermaidDiagrams\<close> in flight, oldest
  first; the console; the calls made into the engine; and whether the observer is installed.
\<close>

record state =
  doc :: node
  data_theme :: "string option"
  mermaidSources :: "string list"
  engine_config :: "config option"
  passes :: "stage list"
  console :: "console_line list"
  calls :: "engine_call list"
  observing :: bool

section \<open>getCurrentTheme\<close>

definition getCurrentTheme :: "string option \<Rightarrow> string" where
  "getCurrentTheme th = (if th = Some ''light'' then ''neutral'' else ''dark'')"

section \<open>addZoomControls\<close>

definition set_prop :: "string \<Rightarrow> string \<Rightarrow> (string \<times> string) list \<Rightarrow> (string \<times> string) list" where
  "set_prop k v xs =
     (if k \<in> fst ` set xs then map (\<lambda>kv. if fst kv = k then (k, v) else kv) xs else xs @ [(k, v)])"

definition svgHeight :: "env \<Rightarrow> node \<Rightarrow> nat" where
  "svgHeight E svg = max (getBBox_height E svg + 40) 300"

definition hint :: node where
  "hint =
     Elem ''div'' [''mermaid-hint''] []
       [(''position'', ''absolute''), (''top'', ''8px''), (''right'', ''8px''),
        (''background'', ''var(--sl-color-gray-6)''), (''color'', ''var(--sl-color-white)''),
        (''padding'', ''4px 8px''), (''borderRadius'', ''4px''), (''fontSize'', ''12px''),
        (''zIndex'', ''10'')]
       [Text ([CHR 0xF0, CHR 0x9F, CHR 0x94, CHR 0x8D] @ '' Scroll to zoom, drag to pan'')]"

definition container_style :: "nat \<Rightarrow> (string \<times> string) list" where
  "container_style h =
     [(''border'', ''1px solid var(--sl-color-gray-5)''), (''borderRadius'', ''4px''),
      (''overflow'', ''visible''), (''position'', ''relative''), (''marginBottom'', ''1rem''),
      (''height'', show_nat h @ ''px''), (''minHeight'', ''300px'')]"

fun full_size :: "node \<Rightarrow> node" where
  "full_size (Text t) = Text t"
| "full_size (Elem tg cl at st ks) =
     Elem tg cl at (set_prop ''height'' ''100%'' (set_prop ''width'' ''100%'' st)) ks"

text \<open>
  The container that \<^verbatim>\<open>addZoomControls(svg, index)\<close> puts where the graphic was,
  with the graphic, full size, and the hint in it (\<open>inner\<close> are the graphic's children).
  Then the library is called on the graphic, and the outcome is one console line: the
  \<^verbatim>\<open>catch\<close> around the call lets nothing out.
\<close>

fun with_children :: "node list \<Rightarrow> node \<Rightarrow> node" where
  "with_children ks' (Text t) = Text t"
| "with_children ks' (Elem tg cl at st ks) = Elem tg cl at st ks'"

definition wrap_graphic :: "env \<Rightarrow> node \<Rightarrow> node list \<Rightarrow> node" where
  "wrap_graphic E svg inner =
     Elem ''div'' [''mermaid-container''] [] (container_style (svgHeight E svg))
       [with_children inner (full_size svg), hint]"

definition zoom_line :: "env \<Rightarrow> node \<Rightarrow> nat \<Rightarrow> console_line" where
  "zoom_line E svg index =
     (if svgPanZoom_throws E (full_size svg) then ErrZoomFailed
      else LogZoomEnabled index (svgHeight E svg))"

definition addZoomControls :: "env \<Rightarrow> node \<Rightarrow> nat \<Rightarrow> node \<times> console_line" where
  "addZoomControls E svg index = (wrap_graphic E svg (children svg), zoom_line E svg index)"

text \<open>
  \<^verbatim>\<open>document.querySelectorAll('.mermaid svg').forEach(addZoomControls)\<close> on the
  document: every graphic below a \<^verbatim>\<open>.mermaid\<close> element is replaced, where it
  stands, by its container. A graphic nested in another graphic is in the list too, and is
  wrapped inside the outer one, which is in its own container by then; so the children
  of a wrapped graphic are those the loop leaves.
\<close>

fun enhance :: "env \<Rightarrow> bool \<Rightarrow> node \<Rightarrow> node" where
  "enhance E inm (Text t) = Text t"
| "enhance E inm (Elem tg cl at st ks) =
     (let inner = map (enhance E (inm \<or> ''mermaid'' \<in> set cl)) ks in
      if inm \<and> tg = ''svg'' then wrap_graphic E (Elem tg cl at st ks) inner
      else Elem tg cl at st inner)"

definition zoom_lines :: "env \<Rightarrow> node list \<Rightarrow> console_line list" where
  "zoom_lines E svgs = map (\<lambda>(svg, index). snd (addZoomControls E svg index)) (zip svgs [0..<length svgs])"

section \<open>renderMermaidDiagrams\<close>

text \<open>
  The first loop, over \<^verbatim>\<open>document.querySelectorAll('.mermaid-container')\<close>: a container
  with a \<^verbatim>\<open>.mermaid\<close> element below it is replaced by that element, whose
  content is set to \<^verbatim>\<open>window.mermaidSources[index]\<close> (\<^verbatim>\<open>undefined\<close> empties it)
  and whose \<^verbatim>\<open>data-processed\<close> attribute is removed. Everything else below such a
  container leaves the document with it.
\<close>

definition restore :: "string list \<Rightarrow> node \<Rightarrow> node" where
  "restore srcs mermaidDiv =
     removeAttribute ''data-processed''
       (set_textContent (case source_at srcs (block_index mermaidDiv) of None \<Rightarrow> [] | Some s \<Rightarrow> s)
          mermaidDiv)"

fun unwrap_containers :: "string list \<Rightarrow> node \<Rightarrow> node" where
  "unwrap_containers srcs (Text t) = Text t"
| "unwrap_containers srcs (Elem tg cl at st ks) =
     (if ''mermaid-container'' \<in> set cl then
        (case querySelector sel_mermaid (Elem tg cl at st ks) of
           Some mermaidDiv \<Rightarrow> restore srcs mermaidDiv
         | None \<Rightarrow> Elem tg cl at st (map (unwrap_containers srcs) ks))
      else Elem tg cl at st (map (unwrap_containers srcs) ks))"

text \<open>
  The second loop, over \<^verbatim>\<open>document.querySelectorAll('.mermaid')\<close>: an element whose
  index is a number and whose cached source is truthy (a non-empty string) gets that source as
  its content and loses \<^verbatim>\<open>data-processed\<close>; any other element is skipped. What was
  below a reset element has left the document, so the loop's later visits there change nothing
  in it.
\<close>

definition reset_applies :: "string list \<Rightarrow> node \<Rightarrow> bool" where
  "reset_applies srcs mermaidDiv =
     (case source_at srcs (block_index mermaidDiv) of None \<Rightarrow> False | Some s \<Rightarrow> s \<noteq> [])"

definition reset_mount :: "string list \<Rightarrow> node \<Rightarrow> node" where
  "reset_mount srcs mermaidDiv =
     (if reset_applies srcs mermaidDiv then
        removeAttribute ''data-processed''
          (set_textContent (case source_at srcs (block_index mermaidDiv) of None \<Rightarrow> [] | Some s \<Rightarrow> s)
             mermaidDiv)
      else mermaidDiv)"

fun reset_mounts :: "string list \<Rightarrow> node \<Rightarrow> node" where
  "reset_mounts srcs (Text t) = Text t"
| "reset_mounts srcs (Elem tg cl at st ks) =
     (if ''mermaid'' \<in> set cl \<and> reset_applies srcs (Elem tg cl at st ks)
      then reset_mount srcs (Elem tg cl at st ks)
      else Elem tg cl at st (map (reset_mounts srcs) ks))"

definition teardown :: "string list \<Rightarrow> node \<Rightarrow> node" where
  "teardown srcs d = reset_mounts srcs (unwrap_containers srcs d)"

text \<open>
  The function runs in three stretches, cut at its two \<^verbatim>\<open>await\<close>s. The first
  (lines 110 to 145) tears down, configures the engine and starts the delay. A pass in flight
  is named by its position in \<open>passes\<close>.
\<close>

definition renderMermaidDiagrams_start :: "env \<Rightarrow> state \<Rightarrow> state" where
  "renderMermaidDiagrams_start E s =
     (let cfg = \<lparr>startOnLoad = False, theme = getCurrentTheme (data_theme s), logLevel = ''error''\<rparr>
      in s\<lparr>console := console s @ [LogRenderingTheme (getCurrentTheme (data_theme s))],
            doc := teardown (mermaidSources s) (doc s),
            engine_config := Some cfg,
            calls := calls s @ [Initialize cfg],
            passes := passes s @ [AwaitingDelay]\<rparr>)"

text \<open>
  The second stretch (lines 148 to 154) runs when the delay is over: it collects the
  \<^verbatim>\<open>.mermaid\<close> elements and makes the batch call. The engine's work on the
  document is taken at the call; its promise settles later.
\<close>

definition renderMermaidDiagrams_after_delay :: "env \<Rightarrow> nat \<Rightarrow> state \<Rightarrow> state" where
  "renderMermaidDiagrams_after_delay E i s =
     (if i < length (passes s) \<and> passes s ! i = AwaitingDelay then
        (let elements = qsa_incl sel_mermaid (doc s);
             (d, ok) = mermaid_run E (engine_config s) elements (doc s)
         in s\<lparr>console := console s @ [LogRendering (length elements)],
               calls := calls s @ [Run elements],
               doc := d,
               passes := (passes s)[i := AwaitingRun ok]\<rparr>)
      else s)"

text \<open>
  The third stretch (lines 156 to 163) runs when the batch call has settled: after a
  resolved call the graphics get their zoom controls; a rejected call lands in the
  \<^verbatim>\<open>catch\<close>, which writes one console error. Either way the invocation returns.
\<close>

definition renderMermaidDiagrams_after_run :: "env \<Rightarrow> nat \<Rightarrow> state \<Rightarrow> state" where
  "renderMermaidDiagrams_after_run E i s =
     (if i < length (passes s) then
        (case passes s ! i of
           AwaitingDelay \<Rightarrow> s
         | AwaitingRun ok \<Rightarrow>
             (let s1 = s\<lparr>passes := take i (passes s) @ drop (Suc i) (passes s)\<rparr> in
              if ok then
                s1\<lparr>console := console s @ [LogRenderingComplete]
                        @ zoom_lines E (qsa_mermaid_svg False (doc s)),
                    doc := enhance E False (doc s)\<rparr>
              else s1\<lparr>console := console s @ [ErrRenderingFailed]\<rparr>))
      else s)"

section \<open>The load handler\<close>

text \<open>
  The conversion loop works on a static list of nodes and replaces nodes while it runs, so
  it needs to know which node is which: a node is named by its path, the child positions
  from the document element down. A replacement puts one node where one node was, so the
  paths of the nodes that stay are the same after it.
\<close>

type_synonym path = "nat list"

fun node_at :: "node \<Rightarrow> path \<Rightarrow> node option" and nth_node_at :: "node list \<Rightarrow> nat \<Rightarrow> path \<Rightarrow> node option" where
  "node_at n [] = Some n"
| "node_at (Text t) (i # p) = None"
| "node_at (Elem tg cl at st ks) (i # p) = nth_node_at ks i p"
| "nth_node_at [] i p = None"
| "nth_node_at (k # ks) 0 p = node_at k p"
| "nth_node_at (k # ks) (Suc i) p = nth_node_at ks i p"

fun replace_at :: "path \<Rightarrow> node \<Rightarrow> node \<Rightarrow> node" and replace_nth :: "nat \<Rightarrow> path \<Rightarrow> node \<Rightarrow> node list \<Rightarrow> node list" where
  "replace_at [] new n = new"
| "replace_at (i # p) new (Text t) = Text t"
| "replace_at (i # p) new (Elem tg cl at st ks) = Elem tg cl at st (replace_nth i p new ks)"
| "replace_nth i p new [] = []"
| "replace_nth 0 p new (k # ks) = replace_at p new k # ks"
| "replace_nth (Suc i) p new (k # ks) = k # replace_nth i p new ks"

fun qsa_paths :: "(node \<Rightarrow> bool) \<Rightarrow> path \<Rightarrow> node \<Rightarrow> (path \<times> node) list"
  and qsa_paths_from :: "(node \<Rightarrow> bool) \<Rightarrow> path \<Rightarrow> nat \<Rightarrow> node list \<Rightarrow> (path \<times> node) list" where
  "qsa_paths P p (Text t) = []"
| "qsa_paths P p (Elem tg cl at st ks) =
     (if P (Elem tg cl at st ks) then [(p, Elem tg cl at st ks)] else []) @ qsa_paths_from P p 0 ks"
| "qsa_paths_from P p i [] = []"
| "qsa_paths_from P p i (k # ks) = qsa_paths P (p @ [i]) k @ qsa_paths_from P p (Suc i) ks"

text \<open>
  \<^verbatim>\<open>pre.closest('figure')\<close> walks from the node up its parents. A node that was
  replaced has no parent any more, so the walk ends there. The chain of a path is the path
  itself and then its ancestors, nearest first.
\<close>

definition ancestor_chain :: "path \<Rightarrow> path list" where
  "ancestor_chain p = map (\<lambda>k. take k p) (rev [0..<Suc (length p)])"

fun closest_figure :: "node \<Rightarrow> path list \<Rightarrow> path list \<Rightarrow> path option" where
  "closest_figure d0 replaced [] = None"
| "closest_figure d0 replaced (q # qs) =
     (case node_at d0 q of
        None \<Rightarrow> None
      | Some n \<Rightarrow>
          if has_tag ''figure'' n then Some q
          else if q \<in> set replaced then None
          else closest_figure d0 replaced qs)"

record conversion =
  c_doc :: node
  c_sources :: "string list"
  c_console :: "console_line list"
  c_replaced :: "path list"

text \<open>
  \<^verbatim>\<open>target.replaceWith(div)\<close>: nothing happens when the target has no parent (it was
  replaced before); a target below a replaced node is replaced outside the document; any
  other target is replaced in the document.
\<close>

definition replaceWith :: "path \<Rightarrow> node \<Rightarrow> conversion \<Rightarrow> conversion" where
  "replaceWith t new c =
     (if t \<in> set (c_replaced c) then c
      else if list_ex (\<lambda>q. q \<in> set (c_replaced c)) (ancestor_chain t)
        then c\<lparr>c_replaced := t # c_replaced c\<rparr>
      else c\<lparr>c_doc := replace_at t new (c_doc c), c_replaced := t # c_replaced c\<rparr>)"

definition mount_div :: "string \<Rightarrow> nat \<Rightarrow> node" where
  "mount_div content index =
     Elem ''div'' [''mermaid''] [(''data-block-index'', show_nat index)] [] (text_nodes content)"

definition block_content :: "env \<Rightarrow> node \<Rightarrow> string" where
  "block_content E code = (if innerText E code \<noteq> [] then innerText E code else textContent code)"

text \<open>
  The body of \<^verbatim>\<open>mermaidBlocks.forEach((pre, index) => ...)\<close> (lines 172 to 196).
  \<open>d0\<close> is the document as it was when the list was made: the nodes of the list and
  their ancestors are read there, since nothing below a listed node changes before its turn.
\<close>

definition convert_block :: "env \<Rightarrow> node \<Rightarrow> path \<times> node \<Rightarrow> nat \<Rightarrow> conversion \<Rightarrow> conversion" where
  "convert_block E d0 block index c =
     (case querySelector sel_code (snd block) of
        None \<Rightarrow> c
      | Some code \<Rightarrow>
          (let content = block_content E code;
               c1 = c\<lparr>c_sources := c_sources c @ [content],
                      c_console := c_console c @ [LogBlock index (take 100 content)]\<rparr>;
               mount = mount_div content index
           in case closest_figure d0 (c_replaced c) (ancestor_chain (fst block)) of
                Some figure \<Rightarrow> replaceWith figure mount c1
              | None \<Rightarrow> replaceWith (fst block) mount c1))"

fun forEach :: "('a \<Rightarrow> nat \<Rightarrow> 'c \<Rightarrow> 'c) \<Rightarrow> 'a list \<Rightarrow> nat \<Rightarrow> 'c \<Rightarrow> 'c" where
  "forEach f [] index c = c"
| "forEach f (x # xs) index c = forEach f xs (Suc index) (f x index c)"

definition convert_blocks :: "env \<Rightarrow> state \<Rightarrow> conversion" where
  "convert_blocks E s =
     (let mermaidBlocks = qsa_paths sel_pre_mermaid [] (doc s)
      in forEach (convert_block E (doc s)) mermaidBlocks 0
           \<lparr>c_doc = doc s, c_sources = mermaidSources s,
            c_console = console s @ [LogStarting, LogFound (length mermaidBlocks)],
            c_replaced = []\<rparr>)"

text \<open>
  The callback of the load handler's 200 ms timer: conversion, the initial render (started,
  not awaited), and the observer of \<^verbatim>\<open>data-theme\<close>.
\<close>

definition page_load :: "env \<Rightarrow> state \<Rightarrow> state" where
  "page_load E s =
     (let c = convert_blocks E s;
          s1 = s\<lparr>doc := c_doc c, mermaidSources := c_sources c, console := c_console c\<rparr>
      in (renderMermaidDiagrams_start E s1)\<lparr>observing := True\<rparr>)"

text \<open>
  One change of \<^verbatim>\<open>data-theme\<close> on the document element (\<open>None\<close>: the attribute
  is removed). Once the observer is installed, its callback logs the change and calls
  \<^verbatim>\<open>renderMermaidDiagrams()\<close>, which it does not await.
\<close>

definition theme_change :: "env \<Rightarrow> string option \<Rightarrow> state \<Rightarrow> state" where
  "theme_change E v s =
     (if observing s then
        renderMermaidDiagrams_start E
          (s\<lparr>data_theme := v, console := console s @ [LogThemeChanged]\<rparr>)
      else s\<lparr>data_theme := v\<rparr>)"

text \<open>The page before the script has done anything (line 44 sets the empty source list).\<close>

definition fresh_page :: "node \<Rightarrow> string option \<Rightarrow> state" where
  "fresh_page d th =
     \<lparr>doc = d, data_theme = th, mermaidSources = [], engine_config = None, passes = [],
      console = [], calls = [], observing = False\<rparr>"

section \<open>Sample pages, a sample engine\<close>

text \<open>
  Concrete inputs for the examples below. The sample engine renders every
  \<^verbatim>\<open>.mermaid\<close> element it has not processed yet: a source that starts with
  \<^verbatim>\<open>graph\<close> becomes one graphic carrying the theme's name, any other source becomes
  an error text; its promise resolves. The sample browser has no layout
  (\<^verbatim>\<open>innerText\<close> is empty, so the script falls back on \<^verbatim>\<open>textContent\<close>).
\<close>

fun sample_render :: "string \<Rightarrow> node \<Rightarrow> node" where
  "sample_render th (Text t) = Text t"
| "sample_render th (Elem tg cl at st ks) =
     (if ''mermaid'' \<in> set cl then
        (if map_of at ''data-processed'' \<noteq> None then Elem tg cl at st ks
         else Elem tg cl (at @ [(''data-processed'', ''true'')]) st
                (if take 5 (concat (map textContent ks)) = ''graph''
                 then [Elem ''svg'' [th] [] [] []]
                 else [Text ''Syntax error in text'']))
      else Elem tg cl at st (map (sample_render th) ks))"

definition sample_env :: env where
  "sample_env =
     \<lparr>innerText = (\<lambda>n. []), getBBox_height = (\<lambda>n. 100), svgPanZoom_throws = (\<lambda>n. False),
      mermaid_run = (\<lambda>cfg nodes d.
        (sample_render (case cfg of None \<Rightarrow> ''default'' | Some c \<Rightarrow> theme c) d, True))\<rparr>"

definition diagram_block :: "string \<Rightarrow> node" where
  "diagram_block src =
     Elem ''figure'' [] [] []
       [Elem ''pre'' [] [(''data-language'', ''mermaid'')] [] [Elem ''code'' [] [] [] (text_nodes src)]]"

definition page_of :: "node list \<Rightarrow> node" where
  "page_of blocks = Elem ''html'' [] [] [] [Elem ''body'' [] [] [] blocks]"

text \<open>
  An engine that reports a source it cannot read by rejecting the batch, which is what
  \<^verbatim>\<open>mermaid.run\<close> of the library loaded in line 30 does unless it is called with
  \<^verbatim>\<open>suppressErrors\<close>, an option that line 152 does not pass. It goes through all
  elements not marked yet and marks each; an element whose source it can read gets one graphic
  as its content; an element whose source it cannot read keeps the error graphic the engine has
  drawn there, inside a \<^verbatim>\<open>div\<close> of the engine's; and when some source could not be
  read, the promise rejects once all elements are done. \<open>lenient_env\<close> is the same engine
  with a promise that resolves nevertheless.
\<close>

definition readable :: "node \<Rightarrow> bool" where
  "readable m = (take 5 (textContent m) = ''graph'')"

definition error_graphic :: node where
  "error_graphic =
     Elem ''div'' [] [] [] [Elem ''svg'' [''error''] [] [] [Text ''Syntax error in text'']]"

fun strict_render :: "string \<Rightarrow> node \<Rightarrow> node" where
  "strict_render th (Text t) = Text t"
| "strict_render th (Elem tg cl at st ks) =
     (if ''mermaid'' \<in> set cl then
        (if map_of at ''data-processed'' \<noteq> None then Elem tg cl at st ks
         else Elem tg cl (at @ [(''data-processed'', ''true'')]) st
                (if readable (Elem tg cl at st ks) then [Elem ''svg'' [th] [] [] []]
                 else [error_graphic]))
      else Elem tg cl at st (map (strict_render th) ks))"

definition strict_env :: env where
  "strict_env =
     sample_env\<lparr>mermaid_run := (\<lambda>cfg nodes d.
        (strict_render (case cfg of None \<Rightarrow> ''default'' | Some c \<Rightarrow> theme c) d,
         list_all (\<lambda>m. getAttribute m ''data-processed'' \<noteq> None \<or> readable m) nodes))\<rparr>"

definition lenient_env :: env where
  "lenient_env =
     sample_env\<lparr>mermaid_run := (\<lambda>cfg nodes d.
        (strict_render (case cfg of None \<Rightarrow> ''default'' | Some c \<Rightarrow> theme c) d, True))\<rparr>"

text \<open>An engine whose batch call rejects, and a pan/zoom library that throws on some graphics.\<close>

definition rejecting_env :: env where
  "rejecting_env = sample_env\<lparr>mermaid_run := (\<lambda>cfg nodes d. (d, False))\<rparr>"

definition fragile_env :: env where
  "fragile_env = sample_env\<lparr>svgPanZoom_throws := has_class ''default''\<rparr>"

text \<open>Mount elements as the sample engine leaves them, and some states of sample pages.\<close>

definition mount_after :: "nat \<Rightarrow> node list \<Rightarrow> node" where
  "mount_after index ks =
     Elem ''div'' [''mermaid''] [(''data-block-index'', show_nat index), (''data-processed'', ''true'')] [] ks"

definition three_blocks :: state where
  "three_blocks = page_load sample_env
     (fresh_page (page_of [diagram_block ''graph TD'', diagram_block ''oops'', diagram_block ''graph LR''])
        (Some ''dark''))"

definition one_unreadable :: state where
  "one_unreadable = page_load strict_env
     (fresh_page (page_of [diagram_block ''graph TD'', diagram_block ''oops'', diagram_block ''graph LR''])
        (Some ''dark''))"

definition two_graphics :: state where
  "two_graphics =
     (fresh_page (page_of
        [mount_after 0 [Elem ''svg'' [''default''] [] [] []],
         mount_after 1 [Elem ''svg'' [''dark''] [] [] []]]) (Some ''dark''))
     \<lparr>mermaidSources := [''graph TD'', ''graph LR''], passes := [AwaitingRun True], observing := True\<rparr>"

definition one_block_rejected :: state where
  "one_block_rejected =
     page_load rejecting_env (fresh_page (page_of [diagram_block ''graph TD'']) (Some ''dark''))"

definition empty_mount_state :: state where
  "empty_mount_state =
     (fresh_page (page_of [mount_after 0 [Text ''Syntax error in text'']]) (Some ''dark''))
     \<lparr>mermaidSources := [[]], observing := True\<rparr>"

text \<open>Pages for the conversion loop and for whole runs.\<close>

definition codeless_pre :: node where
  "codeless_pre = Elem ''pre'' [] [(''data-language'', ''mermaid'')] [] []"

definition code_pre :: "string \<Rightarrow> node" where
  "code_pre src =
     Elem ''pre'' [] [(''data-language'', ''mermaid'')] [] [Elem ''code'' [] [] [] (text_nodes src)]"

definition codeless_page :: node where
  "codeless_page = page_of [codeless_pre, diagram_block ''graph TD'', diagram_block ''graph LR'']"

definition codeless_loaded :: state where
  "codeless_loaded = page_load sample_env (fresh_page codeless_page (Some ''dark''))"

definition plain_page :: node where
  "plain_page = page_of [Elem ''p'' [] [] [] [Text ''no diagrams here'']]"

definition handwritten_page :: node where
  "handwritten_page = page_of [Elem ''div'' [''mermaid''] [] [] [Text ''graph TD'']]"

definition shared_figure_page :: node where
  "shared_figure_page = page_of [Elem ''figure'' [] [] [] [codeless_pre, code_pre ''graph TD'']]"

definition crowded_figure_page :: node where
  "crowded_figure_page =
     page_of [codeless_pre, Elem ''figure'' [] [] [] [code_pre ''graph TD'', code_pre ''graph LR'']]"

definition two_blocks :: state where
  "two_blocks = page_load sample_env
     (fresh_page (page_of [diagram_block ''graph TD'', diagram_block ''graph LR'']) (Some ''dark''))"

definition one_block :: state where
  "one_block = page_load sample_env (fresh_page (page_of [diagram_block ''graph TD'']) (Some ''dark''))"

definition conversion_start :: "node \<Rightarrow> conversion" where
  "conversion_start d = \<lparr>c_doc = d, c_sources = [], c_console = [], c_replaced = []\<rparr>"

section \<open>What the claims are stated with\<close>

definition in_flight :: "state \<Rightarrow> nat" where
  "in_flight s = length (passes s)"

definition sel_svg :: "node \<Rightarrow> bool" where
  "sel_svg = has_tag ''svg''"

fun style_of :: "node \<Rightarrow> (string \<times> string) list" where
  "style_of (Text t) = []"
| "style_of (Elem tg cl at st ks) = st"

text \<open>
  One rendered graphic: an \<^verbatim>\<open>svg\<close> element with no further \<^verbatim>\<open>svg\<close>, no
  \<^verbatim>\<open>.mermaid\<close> and no \<^verbatim>\<open>.mermaid-container\<close> element in it. A mount element
  is \<open>rendered\<close> when its content is one graphic. It is \<open>enhanced\<close> when its content is one
  viewport container that holds one graphic and the hint, with no other container or graphic
  below it.
\<close>

definition graphic :: "node \<Rightarrow> bool" where
  "graphic g = (sel_svg g \<and> \<not> sel_mermaid g \<and> \<not> sel_container g
      \<and> querySelectorAll sel_svg g = [] \<and> querySelectorAll sel_mermaid g = []
      \<and> querySelectorAll sel_container g = [])"

definition rendered :: "node \<Rightarrow> bool" where
  "rendered m = (case children m of [g] \<Rightarrow> graphic g | _ \<Rightarrow> False)"

definition enhanced :: "node \<Rightarrow> bool" where
  "enhanced m =
     (length (querySelectorAll sel_container m) = 1 \<and> length (querySelectorAll sel_svg m) = 1
      \<and> (case children m of
            [c] \<Rightarrow> sel_container c \<and> (case children c of [g, h] \<Rightarrow> sel_svg g \<and> h = hint | _ \<Rightarrow> False)
          | _ \<Rightarrow> False))"

text \<open>
  A mount element is \<open>raw\<close> when its index resolves to a non-empty cached source, that source
  is its whole content, and it carries no \<^verbatim>\<open>data-processed\<close> mark: the state the
  conversion leaves it in.
\<close>

definition raw :: "string list \<Rightarrow> node \<Rightarrow> bool" where
  "raw srcs m =
     (case source_at srcs (block_index m) of
        None \<Rightarrow> False
      | Some src \<Rightarrow> src \<noteq> [] \<and> children m = [Text src] \<and> getAttribute m ''data-processed'' = None)"

definition pass_config :: "string \<Rightarrow> config" where
  "pass_config th = \<lparr>startOnLoad = False, theme = th, logLevel = ''error''\<rparr>"

text \<open>
  What a theorem may assume of the engine on a document \<open>d0\<close> of raw mount elements, for one
  palette: its batch call over the mount elements of \<open>d0\<close> resolves; it has changed nothing but
  the content and the \<^verbatim>\<open>data-processed\<close> mark of mount elements (resetting them gives
  \<open>d0\<close> back); it has put no viewport container of its own; and every mount element now holds
  one graphic, its index still resolving to a non-empty cached source.
\<close>

definition engine_renders :: "env \<Rightarrow> string list \<Rightarrow> node \<Rightarrow> string \<Rightarrow> bool" where
  "engine_renders E srcs d0 th =
     (case mermaid_run E (Some \<lparr>startOnLoad = False, theme = th, logLevel = ''error''\<rparr>)
             (qsa_incl sel_mermaid d0) d0 of
        (r, ok) \<Rightarrow>
          ok \<and> reset_mounts srcs r = d0 \<and> qsa_incl sel_container r = []
          \<and> list_all (\<lambda>m. rendered m \<and> reset_applies srcs m) (qsa_incl sel_mermaid r))"

text \<open>
  The only pass in flight runs to its end: its delay elapses, its batch call settles. Theme
  toggles one after the other, each with its pass completed before the next.
\<close>

definition complete_pass :: "env \<Rightarrow> state \<Rightarrow> state" where
  "complete_pass E s = renderMermaidDiagrams_after_run E 0 (renderMermaidDiagrams_after_delay E 0 s)"

fun toggles :: "env \<Rightarrow> string option list \<Rightarrow> state \<Rightarrow> state" where
  "toggles E [] s = s"
| "toggles E (v # vs) s = toggles E vs (complete_pass E (theme_change E v s))"

definition settled :: "env \<Rightarrow> string list \<Rightarrow> node \<Rightarrow> state \<Rightarrow> bool" where
  "settled E srcs d0 s =
     (passes s = [] \<and> observing s \<and> mermaidSources s = srcs
      \<and> (\<exists>th. (th = ''neutral'' \<or> th = ''dark'')
            \<and> doc s = enhance E False (fst (mermaid_run E (Some (pass_config th)) (qsa_incl sel_mermaid d0) d0))))"

text \<open>The source a block of the static list contributes: none without a \<^verbatim>\<open>code\<close> child.\<close>

definition source_of :: "env \<Rightarrow> path \<times> node \<Rightarrow> string option" where
  "source_of E block =
     (case querySelector sel_code (snd block) of
        None \<Rightarrow> None
      | Some code \<Rightarrow> Some (block_content E code))"

text \<open>
  The node that lines 189 to 194 replace for a block as long as nothing on the way up from it
  has been replaced: its closest \<^verbatim>\<open>figure\<close>, or the block itself. The \<open>targets\<close> of a
  list of blocks are those of its blocks with a \<^verbatim>\<open>code\<close> child, and they are \<open>apart\<close>
  when no two of them, at different places of the list, are the same node or one inside the
  other.
\<close>

definition target :: "node \<Rightarrow> path \<times> node \<Rightarrow> path" where
  "target d0 block =
     (case closest_figure d0 [] (ancestor_chain (fst block)) of
        Some figure \<Rightarrow> figure
      | None \<Rightarrow> fst block)"

definition targets :: "env \<Rightarrow> node \<Rightarrow> (path \<times> node) list \<Rightarrow> path list" where
  "targets E d0 blocks = map (target d0) (filter (\<lambda>b. source_of E b \<noteq> None) blocks)"

fun apart :: "path list \<Rightarrow> bool" where
  "apart [] = True"
| "apart (t # ts) = (list_all (\<lambda>u. \<not> prefix t u \<and> \<not> prefix u t) ts \<and> apart ts)"

section \<open>Facts about the loops\<close>

lemma unwrap_containers_id:
  "(\<And>c. c \<in> set (qsa_incl sel_container d) \<Longrightarrow> querySelectorAll sel_mermaid c = []) \<Longrightarrow> unwrap_containers srcs d = d"
proof (induction d)
  case (Text t)
  show ?case by simp
next
  case (Elem tg cl at st ks)
  have kids: "map (unwrap_containers srcs) ks = ks"
  proof (rule map_idI)
    fix k assume k: "k \<in> set ks"
    show "unwrap_containers srcs k = k"
    proof (rule Elem.IH [OF k])
      fix c assume "c \<in> set (qsa_incl sel_container k)"
      with k have "c \<in> set (qsa_incl sel_container (Elem tg cl at st ks))" by auto
      then show "querySelectorAll sel_mermaid c = []" by (rule Elem.prems)
    qed
  qed
  show ?case
  proof (cases "''mermaid-container'' \<in> set cl")
    case True
    then have "Elem tg cl at st ks \<in> set (qsa_incl sel_container (Elem tg cl at st ks))"
      by (simp add: sel_container_def)
    then have "querySelectorAll sel_mermaid (Elem tg cl at st ks) = []" by (rule Elem.prems)
    then show ?thesis using kids by (simp add: querySelector_def)
  next
    case False
    then show ?thesis using kids by simp
  qed
qed

lemma reset_mounts_id:
  "qsa_incl sel_mermaid d = [] \<Longrightarrow> reset_mounts srcs d = d"
proof (induction d)
  case (Text t)
  show ?case by simp
next
  case (Elem tg cl at st ks)
  from Elem.prems have nm: "''mermaid'' \<notin> set cl" and ks: "\<And>k. k \<in> set ks \<Longrightarrow> qsa_incl sel_mermaid k = []"
    by (auto simp: sel_mermaid_def split: if_splits)
  have "map (reset_mounts srcs) ks = ks"
    by (rule map_idI) (simp add: Elem.IH ks)
  then show ?case using nm by simp
qed

lemma reset_mounts_keeps:
  assumes "m \<in> set (qsa_incl sel_mermaid d)"
    and "\<not> reset_applies srcs m"
    and "\<And>x. x \<in> set (qsa_incl sel_mermaid d) \<Longrightarrow> querySelectorAll sel_mermaid x = []"
  shows "m \<in> set (qsa_incl sel_mermaid (reset_mounts srcs d))"
  using assms
proof (induction d)
  case (Text t)
  then show ?case by simp
next
  case (Elem tg cl at st ks)
  let ?d = "Elem tg cl at st ks"
  show ?case
  proof (cases "''mermaid'' \<in> set cl")
    case True
    then have "?d \<in> set (qsa_incl sel_mermaid ?d)" by (simp add: sel_mermaid_def)
    then have flat: "querySelectorAll sel_mermaid ?d = []" by (rule Elem.prems(3))
    with Elem.prems(1) True have m: "m = ?d" by (simp add: sel_mermaid_def querySelectorAll_def)
    have "\<And>k. k \<in> set ks \<Longrightarrow> qsa_incl sel_mermaid k = []"
      using flat by (simp add: querySelectorAll_def)
    then have "map (reset_mounts srcs) ks = ks"
      by (intro map_idI reset_mounts_id)
    then have "reset_mounts srcs ?d = ?d" using Elem.prems(2) m by simp
    then show ?thesis using Elem.prems(1) by simp
  next
    case False
    with Elem.prems(1) obtain k where k: "k \<in> set ks" and mk: "m \<in> set (qsa_incl sel_mermaid k)"
      by (auto simp: sel_mermaid_def)
    have "m \<in> set (qsa_incl sel_mermaid (reset_mounts srcs k))"
    proof (rule Elem.IH [OF k mk Elem.prems(2)])
      fix x assume "x \<in> set (qsa_incl sel_mermaid k)"
      with k have "x \<in> set (qsa_incl sel_mermaid ?d)" by auto
      then show "querySelectorAll sel_mermaid x = []" by (rule Elem.prems(3))
    qed
    then show ?thesis using False k by (auto simp: sel_mermaid_def)
  qed
qed

lemma concat_map_Nil: "(\<And>x. x \<in> set xs \<Longrightarrow> f x = []) \<Longrightarrow> concat (map f xs) = []"
  by (induction xs) auto

lemma concat_map_Nil_iff: "(concat (map f xs) = []) = (\<forall>x \<in> set xs. f x = [])"
  by (induction xs) auto

lemma qsa_svg_below_mount:
  "qsa_incl sel_mermaid d = [] \<Longrightarrow> qsa_mermaid_svg True d = qsa_incl sel_svg d"
proof (induction d)
  case (Text t)
  show ?case by simp
next
  case (Elem tg cl at st ks)
  from Elem.prems have nm: "''mermaid'' \<notin> set cl"
    and ks: "\<And>k. k \<in> set ks \<Longrightarrow> qsa_incl sel_mermaid k = []"
    by (auto simp: sel_mermaid_def split: if_splits)
  have "map (qsa_mermaid_svg True) ks = map (qsa_incl sel_svg) ks"
    by (rule map_cong [OF refl]) (simp add: Elem.IH ks)
  then have "concat (map (qsa_mermaid_svg True) ks) = concat (map (qsa_incl sel_svg) ks)"
    by (rule arg_cong)
  then show ?case by (simp add: nm sel_svg_def)
qed

lemma enhance_id: "qsa_mermaid_svg b d = [] \<Longrightarrow> enhance E b d = d"
proof (induction d arbitrary: b)
  case (Text t)
  show ?case by simp
next
  case (Elem tg cl at st ks)
  from Elem.prems have nw: "\<not> (b \<and> tg = ''svg'')"
    and ks: "\<And>k. k \<in> set ks \<Longrightarrow> qsa_mermaid_svg (b \<or> ''mermaid'' \<in> set cl) k = []"
    by (auto split: if_splits)
  have "map (enhance E (b \<or> ''mermaid'' \<in> set cl)) ks = ks"
    by (rule map_idI) (simp add: Elem.IH ks)
  then have "(let inner = map (enhance E (b \<or> ''mermaid'' \<in> set cl)) ks in Elem tg cl at st inner)
      = Elem tg cl at st ks"
    by (simp only: Let_def)
  then show ?case by (simp only: enhance.simps nw if_False Let_def)
qed

lemma enhance_no_mounts:
  "qsa_incl sel_mermaid d = [] \<Longrightarrow> qsa_incl sel_mermaid (enhance E b d) = []"
proof (induction d arbitrary: b)
  case (Text t)
  show ?case by simp
next
  case (Elem tg cl at st ks)
  from Elem.prems have nm: "''mermaid'' \<notin> set cl"
    and ks: "\<And>k. k \<in> set ks \<Longrightarrow> qsa_incl sel_mermaid k = []"
    by (auto simp: sel_mermaid_def split: if_splits)
  have kids: "concat (map (qsa_incl (has_class ''mermaid'') \<circ> enhance E b') ks) = []" for b'
  proof -
    have "concat (map (\<lambda>k. qsa_incl sel_mermaid (enhance E b' k)) ks) = []"
      by (rule concat_map_Nil) (simp add: Elem.IH ks)
    then show ?thesis by (simp only: comp_def sel_mermaid_def)
  qed
  show ?case
    by (simp add: nm kids Let_def wrap_graphic_def sel_mermaid_def hint_def)
qed

lemma mounts_enhance:
  assumes "\<And>m. m \<in> set (qsa_incl sel_mermaid d) \<Longrightarrow> querySelectorAll sel_mermaid m = []"
    and "b \<Longrightarrow> qsa_incl sel_mermaid d = []"
  shows "qsa_incl sel_mermaid (enhance E b d) = map (enhance E False) (qsa_incl sel_mermaid d)"
  using assms
proof (induction d arbitrary: b)
  case (Text t)
  show ?case by simp
next
  case (Elem tg cl at st ks)
  let ?d = "Elem tg cl at st ks"
  show ?case
  proof (cases "''mermaid'' \<in> set cl")
    case True
    then have self: "?d \<in> set (qsa_incl sel_mermaid ?d)" by (simp add: sel_mermaid_def)
    then have nb: "\<not> b" using Elem.prems(2) by auto
    from self have "querySelectorAll sel_mermaid ?d = []" by (rule Elem.prems(1))
    then have below: "concat (map (qsa_incl sel_mermaid) ks) = []"
      by (simp add: querySelectorAll_def)
    then have "\<And>k. k \<in> set ks \<Longrightarrow> qsa_incl sel_mermaid k = []"
      by (simp add: concat_map_Nil_iff)
    then have "concat (map (\<lambda>k. qsa_incl sel_mermaid (enhance E True k)) ks) = []"
      by (intro concat_map_Nil) (simp add: enhance_no_mounts)
    then have kids: "concat (map (qsa_incl (has_class ''mermaid'') \<circ> enhance E True) ks) = []"
      by (simp only: comp_def sel_mermaid_def)
    have below': "concat (map (qsa_incl (has_class ''mermaid'')) ks) = []"
      using below by (simp only: sel_mermaid_def)
    show ?thesis by (simp add: True nb kids below' sel_mermaid_def Let_def)
  next
    case False
    have kids: "concat (map (qsa_incl (has_class ''mermaid'') \<circ> enhance E b') ks)
        = map (enhance E False) (concat (map (qsa_incl (has_class ''mermaid'')) ks))"
      if b': "b' \<longrightarrow> b" for b'
    proof -
      have "map (\<lambda>k. qsa_incl sel_mermaid (enhance E b' k)) ks
          = map (\<lambda>k. map (enhance E False) (qsa_incl sel_mermaid k)) ks"
      proof (rule map_cong [OF refl])
        fix k assume k: "k \<in> set ks"
        show "qsa_incl sel_mermaid (enhance E b' k) = map (enhance E False) (qsa_incl sel_mermaid k)"
        proof (rule Elem.IH [OF k])
          fix m assume "m \<in> set (qsa_incl sel_mermaid k)"
          with k have "m \<in> set (qsa_incl sel_mermaid ?d)" by auto
          then show "querySelectorAll sel_mermaid m = []" by (rule Elem.prems(1))
        next
          assume b'
          with b' have b by simp
          then have "qsa_incl sel_mermaid ?d = []" by (rule Elem.prems(2))
          with k show "qsa_incl sel_mermaid k = []" by (auto split: if_splits)
        qed
      qed
      then have "concat (map (\<lambda>k. qsa_incl sel_mermaid (enhance E b' k)) ks)
          = concat (map (\<lambda>k. map (enhance E False) (qsa_incl sel_mermaid k)) ks)"
        by (rule arg_cong)
      then show ?thesis by (simp only: comp_def sel_mermaid_def map_concat map_map)
    qed
    show ?thesis
      by (simp add: False kids sel_mermaid_def Let_def wrap_graphic_def hint_def)
  qed
qed

lemma containers_enhance:
  "length (qsa_incl sel_container (enhance E b d))
     = length (qsa_incl sel_container d) + length (qsa_mermaid_svg b d)"
proof (induction d arbitrary: b)
  case (Text t)
  show ?case by simp
next
  case (Elem tg cl at st ks)
  have kids: "length (concat (map (qsa_incl (has_class ''mermaid-container'') \<circ> enhance E b') ks))
      = length (concat (map (qsa_incl (has_class ''mermaid-container'')) ks))
        + length (concat (map (qsa_mermaid_svg b') ks))" for b'
  proof -
    have "map (\<lambda>k. length (qsa_incl sel_container (enhance E b' k))) ks
        = map (\<lambda>k. length (qsa_incl sel_container k) + length (qsa_mermaid_svg b' k)) ks"
      by (rule map_cong [OF refl]) (rule Elem.IH)
    then have "sum_list (map (\<lambda>k. length (qsa_incl sel_container (enhance E b' k))) ks)
        = sum_list (map (\<lambda>k. length (qsa_incl sel_container k) + length (qsa_mermaid_svg b' k)) ks)"
      by (rule arg_cong)
    then show ?thesis
      by (simp only: length_concat map_map comp_def sum_list_addf sel_container_def)
  qed
  show ?case
    by (simp add: kids Let_def wrap_graphic_def sel_container_def hint_def)
qed

lemma concat_map_concat':
  "concat (map f (concat xss)) = concat (map (\<lambda>xs. concat (map f xs)) xss)"
  by (induction xss) simp_all

lemma qsa_incl_svg: "qsa_incl sel_svg n = (if sel_svg n then [n] else []) @ querySelectorAll sel_svg n"
  by (cases n) (simp_all add: querySelectorAll_def sel_svg_def)

lemma qsa_incl_mermaid:
  "qsa_incl sel_mermaid n = (if sel_mermaid n then [n] else []) @ querySelectorAll sel_mermaid n"
  by (cases n) (simp_all add: querySelectorAll_def sel_mermaid_def)

lemma qsa_incl_container:
  "qsa_incl sel_container n = (if sel_container n then [n] else []) @ querySelectorAll sel_container n"
  by (cases n) (simp_all add: querySelectorAll_def sel_container_def)

lemma svgs_by_mount:
  assumes "\<And>m. m \<in> set (qsa_incl sel_mermaid d) \<Longrightarrow> querySelectorAll sel_mermaid m = []"
  shows "qsa_mermaid_svg False d = concat (map (querySelectorAll sel_svg) (qsa_incl sel_mermaid d))"
  using assms
proof (induction d)
  case (Text t)
  show ?case by simp
next
  case (Elem tg cl at st ks)
  let ?d = "Elem tg cl at st ks"
  show ?case
  proof (cases "''mermaid'' \<in> set cl")
    case True
    then have "?d \<in> set (qsa_incl sel_mermaid ?d)" by (simp add: sel_mermaid_def)
    then have "querySelectorAll sel_mermaid ?d = []" by (rule Elem.prems)
    then have below: "concat (map (qsa_incl sel_mermaid) ks) = []"
      by (simp add: querySelectorAll_def)
    then have none: "\<And>k. k \<in> set ks \<Longrightarrow> qsa_incl sel_mermaid k = []"
      by (simp add: concat_map_Nil_iff)
    have "map (qsa_mermaid_svg True) ks = map (qsa_incl sel_svg) ks"
      by (rule map_cong [OF refl]) (simp add: qsa_svg_below_mount none)
    then have kids: "concat (map (qsa_mermaid_svg True) ks) = concat (map (qsa_incl sel_svg) ks)"
      by (rule arg_cong)
    have below': "concat (map (qsa_incl (has_class ''mermaid'')) ks) = []"
      using below by (simp only: sel_mermaid_def)
    show ?thesis
      by (simp add: True kids below' sel_mermaid_def querySelectorAll_def)
  next
    case False
    have "map (qsa_mermaid_svg False) ks
        = map (\<lambda>k. concat (map (querySelectorAll sel_svg) (qsa_incl sel_mermaid k))) ks"
    proof (rule map_cong [OF refl])
      fix k assume k: "k \<in> set ks"
      show "qsa_mermaid_svg False k = concat (map (querySelectorAll sel_svg) (qsa_incl sel_mermaid k))"
      proof (rule Elem.IH [OF k])
        fix m assume "m \<in> set (qsa_incl sel_mermaid k)"
        with k have "m \<in> set (qsa_incl sel_mermaid ?d)" by auto
        then show "querySelectorAll sel_mermaid m = []" by (rule Elem.prems)
      qed
    qed
    then have "concat (map (qsa_mermaid_svg False) ks)
        = concat (map (\<lambda>k. concat (map (querySelectorAll sel_svg) (qsa_incl sel_mermaid k))) ks)"
      by (rule arg_cong)
    then have kids: "concat (map (qsa_mermaid_svg False) ks)
        = concat (map (querySelectorAll sel_svg) (concat (map (qsa_incl (has_class ''mermaid'')) ks)))"
      by (simp only: concat_map_concat' map_map comp_def sel_mermaid_def)
    show ?thesis
      by (simp add: False kids sel_mermaid_def)
  qed
qed

lemma qsa_incl_children: "querySelectorAll P (Elem tg cl at st ks) = concat (map (qsa_incl P) ks)"
  by (simp add: querySelectorAll_def)

lemma children_cases:
  "children m = ks \<Longrightarrow> ks \<noteq> [] \<Longrightarrow> \<exists>tg cl at st. m = Elem tg cl at st ks"
  by (cases m) auto

lemma rendered_svgs: "rendered m \<Longrightarrow> length (querySelectorAll sel_svg m) = 1"
  by (cases m) (auto simp: rendered_def graphic_def qsa_incl_svg qsa_incl_children
      split: list.splits)

lemma rendered_flat: "rendered m \<Longrightarrow> querySelectorAll sel_mermaid m = []"
  by (cases m) (auto simp: rendered_def graphic_def qsa_incl_mermaid qsa_incl_children
      split: list.splits)

lemma no_svg_below:
  "qsa_incl sel_svg d = [] \<Longrightarrow> qsa_mermaid_svg b d = []"
proof (induction d arbitrary: b)
  case (Text t)
  show ?case by simp
next
  case (Elem tg cl at st ks)
  from Elem.prems have ns: "tg \<noteq> ''svg''"
    and ks: "\<And>k. k \<in> set ks \<Longrightarrow> qsa_incl sel_svg k = []"
    by (auto simp: sel_svg_def split: if_splits)
  have "concat (map (qsa_mermaid_svg b') ks) = []" for b'
    by (rule concat_map_Nil) (simp add: Elem.IH ks)
  then show ?case by (simp add: ns)
qed

lemma enhance_no_svg:
  assumes "querySelectorAll sel_svg m = []"
  shows "enhance E False m = m"
proof (cases m)
  case (Text t)
  then show ?thesis by simp
next
  case (Elem tg cl at st ks)
  from assms Elem have "\<And>k. k \<in> set ks \<Longrightarrow> qsa_incl sel_svg k = []"
    by (simp add: querySelectorAll_def concat_map_Nil_iff)
  then have "concat (map (qsa_mermaid_svg b') ks) = []" for b'
    by (intro concat_map_Nil no_svg_below)
  then have "qsa_mermaid_svg False m = []" using Elem by simp
  then show ?thesis by (rule enhance_id)
qed

lemma enhance_rendered:
  assumes "rendered m" and "sel_mermaid m"
  shows "enhanced (enhance E False m)"
proof -
  from assms(1) obtain g where ch: "children m = [g]" and g: "graphic g"
    by (auto simp: rendered_def split: list.splits)
  from ch obtain tg cl at st where m: "m = Elem tg cl at st [g]"
    using children_cases by blast
  from g obtain cl' at' st' ks' where gg: "g = Elem ''svg'' cl' at' st' ks'"
    by (cases g) (auto simp: graphic_def sel_svg_def)
  from g gg have inner: "\<And>k. k \<in> set ks' \<Longrightarrow> qsa_incl sel_svg k = []"
    and innerc: "\<And>k. k \<in> set ks' \<Longrightarrow> qsa_incl sel_container k = []"
    by (simp_all add: graphic_def querySelectorAll_def concat_map_Nil_iff)
  have "map (enhance E b') ks' = ks'" for b'
    by (rule map_idI) (simp add: enhance_id no_svg_below inner)
  moreover have "concat (map (qsa_incl (has_tag ''svg'')) ks') = []"
    by (rule concat_map_Nil) (use inner in \<open>simp add: sel_svg_def\<close>)
  moreover have "concat (map (qsa_incl (has_class ''mermaid-container'')) ks') = []"
    by (rule concat_map_Nil) (use innerc in \<open>simp add: sel_container_def\<close>)
  moreover have "''mermaid'' \<in> set cl" using assms(2) m by (simp add: sel_mermaid_def)
  moreover have "''mermaid-container'' \<notin> set cl'" using g gg by (simp add: graphic_def sel_container_def)
  ultimately show ?thesis
    by (simp add: m gg enhanced_def wrap_graphic_def querySelectorAll_def sel_container_def
        sel_svg_def hint_def Let_def)
qed

lemma sel_container_enhance: "sel_container (enhance E False m) = sel_container m"
  by (cases m) (simp_all add: sel_container_def Let_def)

lemma containers_in_mount:
  assumes m: "sel_mermaid m" and flat: "querySelectorAll sel_mermaid m = []"
  shows "length (querySelectorAll sel_container (enhance E False m))
     = length (querySelectorAll sel_container m) + length (querySelectorAll sel_svg m)"
proof -
  have one: "qsa_incl sel_mermaid m = [m]" using m flat by (simp add: qsa_incl_mermaid)
  have "qsa_mermaid_svg False m = concat (map (querySelectorAll sel_svg) (qsa_incl sel_mermaid m))"
    by (rule svgs_by_mount) (simp add: one flat)
  then have svgs: "qsa_mermaid_svg False m = querySelectorAll sel_svg m" by (simp add: one)
  have "length (qsa_incl sel_container (enhance E False m))
      = length (qsa_incl sel_container m) + length (qsa_mermaid_svg False m)"
    by (rule containers_enhance)
  then show ?thesis
    by (simp add: qsa_incl_container [of "enhance E False m"] qsa_incl_container [of m]
        sel_container_enhance svgs split: if_splits)
qed

lemma qsa_incl_sat: "m \<in> set (qsa_incl P d) \<Longrightarrow> P m"
proof (induction d)
  case (Text t)
  then show ?case by simp
next
  case (Elem tg cl at st ks)
  then show ?case by (auto split: if_splits)
qed

lemma length_concat_ones:
  "(\<And>x. x \<in> set xs \<Longrightarrow> length (f x) = 1) \<Longrightarrow> length (concat (map f xs)) = length xs"
  by (induction xs) simp_all

lemma zoom_lines_length: "length (zoom_lines E svgs) = length svgs"
  by (simp add: zoom_lines_def)

lemma after_delay_state:
  assumes "i < length (passes s)" and "passes s ! i = AwaitingDelay"
    and "mermaid_run E (engine_config s) (qsa_incl sel_mermaid (doc s)) (doc s) = (d1, ok)"
  shows "renderMermaidDiagrams_after_delay E i s =
     s\<lparr>console := console s @ [LogRendering (length (qsa_incl sel_mermaid (doc s)))],
       calls := calls s @ [Run (qsa_incl sel_mermaid (doc s))],
       doc := d1,
       passes := (passes s)[i := AwaitingRun ok]\<rparr>"
  using assms by (simp add: renderMermaidDiagrams_after_delay_def Let_def)

lemma enhance_throws_irrelevant: "enhance (E\<lparr>svgPanZoom_throws := f\<rparr>) b d = enhance E b d"
proof (induction d arbitrary: b)
  case (Text t)
  show ?case by simp
next
  case (Elem tg cl at st ks)
  have "map (enhance (E\<lparr>svgPanZoom_throws := f\<rparr>) b') ks = map (enhance E b') ks" for b'
    by (rule map_cong [OF refl]) (rule Elem.IH)
  then show ?case by (simp add: Let_def wrap_graphic_def svgHeight_def)
qed

lemma zoom_lines_nth:
  "j < length svgs \<Longrightarrow> zoom_lines E svgs ! j = zoom_line E (svgs ! j) j"
  by (simp add: zoom_lines_def addZoomControls_def)

lemma with_own_children: "with_children (children g) (full_size g) = full_size g"
  by (cases g) simp_all

lemma start_then_delay:
  "calls (renderMermaidDiagrams_after_delay E (length (passes s)) (renderMermaidDiagrams_start E s))
     = calls s @ [Initialize \<lparr>startOnLoad = False, theme = getCurrentTheme (data_theme s), logLevel = ''error''\<rparr>,
                 Run (qsa_incl sel_mermaid (teardown (mermaidSources s) (doc s)))]"
  by (simp add: renderMermaidDiagrams_start_def renderMermaidDiagrams_after_delay_def Let_def
      nth_append split: prod.splits)

lemma doc_start: "doc (renderMermaidDiagrams_start E s) = teardown (mermaidSources s) (doc s)"
  by (simp add: renderMermaidDiagrams_start_def Let_def)

lemma passes_start: "passes (renderMermaidDiagrams_start E s) = passes s @ [AwaitingDelay]"
  by (simp add: renderMermaidDiagrams_start_def Let_def)

lemma passes_theme_change: "observing s \<Longrightarrow> passes (theme_change E v s) = passes s @ [AwaitingDelay]"
  by (simp add: theme_change_def passes_start)

lemma observing_start: "observing (renderMermaidDiagrams_start E s) = observing s"
  by (simp add: renderMermaidDiagrams_start_def Let_def)

lemma observing_theme_change: "observing (theme_change E v s) = observing s"
  by (simp add: theme_change_def observing_start)

lemma passes_page_load: "passes (page_load E s) = passes s @ [AwaitingDelay]"
  by (simp add: page_load_def Let_def passes_start)

lemma observing_page_load: "observing (page_load E s)"
  by (simp add: page_load_def Let_def)

lemma fold_theme_change:
  "observing s \<Longrightarrow>
   observing (fold (theme_change E) vs s)
   \<and> in_flight (fold (theme_change E) vs s) = in_flight s + length vs"
  by (induction vs arbitrary: s)
    (simp_all add: in_flight_def passes_theme_change observing_theme_change)


lemma reset_mount_attrs:
  "reset_applies srcs (Elem tg cl at st ks) \<Longrightarrow>
   reset_mount srcs (Elem tg cl at st ks') = reset_mount srcs (Elem tg cl at st ks)"
  by (simp add: reset_mount_def reset_applies_def block_index_def)

lemma reset_after_enhance:
  "(\<And>m. m \<in> set (qsa_incl sel_mermaid d) \<Longrightarrow> reset_applies srcs m) \<Longrightarrow>
   reset_mounts srcs (enhance E False d) = reset_mounts srcs d"
proof (induction d)
  case (Text t)
  show ?case by simp
next
  case (Elem tg cl at st ks)
  let ?d = "Elem tg cl at st ks"
  show ?case
  proof (cases "''mermaid'' \<in> set cl")
    case True
    then have "?d \<in> set (qsa_incl sel_mermaid ?d)" by (simp add: sel_mermaid_def)
    then have ap: "reset_applies srcs ?d" by (rule Elem.prems)
    then have ap': "reset_applies srcs (Elem tg cl at st (map (enhance E True) ks))"
      unfolding reset_applies_def block_index_def by simp
    show ?thesis
      using True ap ap' reset_mount_attrs [OF ap, of "map (enhance E True) ks"]
      by (simp add: Let_def)
  next
    case False
    have "map (\<lambda>k. reset_mounts srcs (enhance E False k)) ks = map (reset_mounts srcs) ks"
    proof (rule map_cong [OF refl])
      fix k assume k: "k \<in> set ks"
      show "reset_mounts srcs (enhance E False k) = reset_mounts srcs k"
      proof (rule Elem.IH [OF k])
        fix m assume "m \<in> set (qsa_incl sel_mermaid k)"
        with k have "m \<in> set (qsa_incl sel_mermaid ?d)" by auto
        then show "reset_applies srcs m" by (rule Elem.prems)
      qed
    qed
    then have "map (reset_mounts srcs \<circ> enhance E False) ks = map (reset_mounts srcs) ks"
      by (simp only: comp_def)
    then show ?thesis using False by (simp add: Let_def)
  qed
qed

lemma containers_reset:
  "qsa_incl sel_container d = [] \<Longrightarrow> qsa_incl sel_container (reset_mounts srcs d) = []"
proof (induction d)
  case (Text t)
  show ?case by simp
next
  case (Elem tg cl at st ks)
  from Elem.prems have nc: "''mermaid-container'' \<notin> set cl"
    and ncs: "\<And>k. k \<in> set ks \<Longrightarrow> qsa_incl sel_container k = []"
    by (auto simp: sel_container_def split: if_splits)
  have "concat (map (\<lambda>k. qsa_incl sel_container (reset_mounts srcs k)) ks) = []"
    by (rule concat_map_Nil) (simp add: Elem.IH ncs)
  then have kids: "concat (map (qsa_incl (has_class ''mermaid-container'') \<circ> reset_mounts srcs) ks) = []"
    by (simp only: comp_def sel_container_def)
  show ?case
    by (simp add: nc kids sel_container_def reset_mount_def text_nodes_def)
qed

lemma map_of_removeAttr:
  "map_of (removeAttr a at) k = (if k = a then None else map_of at k)"
  by (induction at) (auto simp: removeAttr_def)

lemma block_index_reset:
  "block_index (removeAttribute ''data-processed'' (set_textContent src m)) = block_index m"
  by (cases m) (simp_all add: block_index_def map_of_removeAttr)

lemma new_containers_hold_no_mounts:
  assumes "\<And>m. m \<in> set (qsa_incl sel_mermaid d) \<Longrightarrow> querySelectorAll sel_mermaid m = []"
    and "b \<Longrightarrow> qsa_incl sel_mermaid d = []"
    and "qsa_incl sel_container d = []"
    and "c \<in> set (qsa_incl sel_container (enhance E b d))"
  shows "querySelectorAll sel_mermaid c = []"
  using assms
proof (induction d arbitrary: b)
  case (Text t)
  then show ?case by simp
next
  case (Elem tg cl at st ks)
  let ?d = "Elem tg cl at st ks"
  let ?b = "b \<or> ''mermaid'' \<in> set cl"
  from Elem.prems(3) have nc: "''mermaid-container'' \<notin> set cl"
    and ncs: "\<And>k. k \<in> set ks \<Longrightarrow> qsa_incl sel_container k = []"
    by (auto simp: sel_container_def split: if_splits)
  have flatk: "querySelectorAll sel_mermaid m = []" if "k \<in> set ks" "m \<in> set (qsa_incl sel_mermaid k)" for k m
  proof -
    from that have "m \<in> set (qsa_incl sel_mermaid ?d)" by auto
    then show ?thesis by (rule Elem.prems(1))
  qed
  have nomk: "qsa_incl sel_mermaid k = []" if "k \<in> set ks" "?b" for k
  proof (cases b)
    case True
    then have "qsa_incl sel_mermaid ?d = []" by (rule Elem.prems(2))
    with that show ?thesis by (auto split: if_splits)
  next
    case False
    with that have "''mermaid'' \<in> set cl" by simp
    then have "?d \<in> set (qsa_incl sel_mermaid ?d)" by (simp add: sel_mermaid_def)
    then have "querySelectorAll sel_mermaid ?d = []" by (rule Elem.prems(1))
    with that show ?thesis by (simp add: querySelectorAll_def)
  qed
  have inner: "querySelectorAll sel_mermaid c = []"
    if "k \<in> set ks" "c \<in> set (qsa_incl sel_container (enhance E ?b k))" for k
    using that(1) flatk [OF that(1)] nomk [OF that(1)] ncs [OF that(1)] that(2)
    by (rule Elem.IH)
  show ?case
  proof (cases "b \<and> tg = ''svg''")
    case True
    then have b: b and tg: "tg = ''svg''" by simp_all
    from b have "qsa_incl sel_mermaid ?d = []" by (rule Elem.prems(2))
    then have nm: "''mermaid'' \<notin> set cl" by (auto simp: sel_mermaid_def split: if_splits)
    have "concat (map (\<lambda>k. qsa_incl sel_mermaid (enhance E True k)) ks) = []"
      by (rule concat_map_Nil) (use nomk b in \<open>simp add: enhance_no_mounts\<close>)
    then have nomounts: "concat (map (qsa_incl (has_class ''mermaid'') \<circ> enhance E True) ks) = []"
      by (simp only: comp_def sel_mermaid_def)
    have e: "enhance E b ?d = wrap_graphic E ?d (map (enhance E True) ks)"
      using b tg by (simp add: Let_def)
    from Elem.prems(4)
    have "c = enhance E b ?d \<or> (\<exists>k \<in> set ks. c \<in> set (qsa_incl sel_container (enhance E True k)))"
      unfolding e using nc tg by (auto simp: wrap_graphic_def sel_container_def hint_def)
    then show ?thesis
    proof
      assume "c = enhance E b ?d"
      then show ?thesis unfolding e
        by (simp add: nm nomounts tg wrap_graphic_def querySelectorAll_def sel_mermaid_def hint_def)
    next
      assume "\<exists>k \<in> set ks. c \<in> set (qsa_incl sel_container (enhance E True k))"
      then obtain k where "k \<in> set ks" "c \<in> set (qsa_incl sel_container (enhance E True k))" by blast
      then show ?thesis using inner [of k] b by simp
    qed
  next
    case False
    then have e: "enhance E b ?d = Elem tg cl at st (map (enhance E ?b) ks)"
      by (auto simp: Let_def)
    from Elem.prems(4)
    obtain k where "k \<in> set ks" "c \<in> set (qsa_incl sel_container (enhance E ?b k))"
      unfolding e using nc by (auto simp: sel_container_def)
    then show ?thesis by (rule inner)
  qed
qed

lemma mounts_reset:
  assumes "\<And>m. m \<in> set (qsa_incl sel_mermaid d) \<Longrightarrow> querySelectorAll sel_mermaid m = []"
  shows "qsa_incl sel_mermaid (reset_mounts srcs d) = map (reset_mount srcs) (qsa_incl sel_mermaid d)"
  using assms
proof (induction d)
  case (Text t)
  show ?case by simp
next
  case (Elem tg cl at st ks)
  let ?d = "Elem tg cl at st ks"
  show ?case
  proof (cases "''mermaid'' \<in> set cl")
    case True
    then have "?d \<in> set (qsa_incl sel_mermaid ?d)" by (simp add: sel_mermaid_def)
    then have "querySelectorAll sel_mermaid ?d = []" by (rule Elem.prems)
    then have below: "concat (map (qsa_incl (has_class ''mermaid'')) ks) = []"
      by (simp add: querySelectorAll_def sel_mermaid_def)
    then have none: "\<And>k. k \<in> set ks \<Longrightarrow> qsa_incl sel_mermaid k = []"
      by (simp add: concat_map_Nil_iff sel_mermaid_def)
    have same: "map (reset_mounts srcs) ks = ks"
      by (rule map_idI) (simp add: reset_mounts_id none)
    show ?thesis
    proof (cases "reset_applies srcs ?d")
      case ap: True
      show ?thesis
        by (simp add: True ap below reset_mount_def sel_mermaid_def text_nodes_def)
    next
      case nap: False
      show ?thesis
        by (simp add: True nap below same reset_mount_def sel_mermaid_def)
    qed
  next
    case False
    have "map (\<lambda>k. qsa_incl sel_mermaid (reset_mounts srcs k)) ks
        = map (\<lambda>k. map (reset_mount srcs) (qsa_incl sel_mermaid k)) ks"
    proof (rule map_cong [OF refl])
      fix k assume k: "k \<in> set ks"
      show "qsa_incl sel_mermaid (reset_mounts srcs k) = map (reset_mount srcs) (qsa_incl sel_mermaid k)"
      proof (rule Elem.IH [OF k])
        fix m assume "m \<in> set (qsa_incl sel_mermaid k)"
        with k have "m \<in> set (qsa_incl sel_mermaid ?d)" by auto
        then show "querySelectorAll sel_mermaid m = []" by (rule Elem.prems)
      qed
    qed
    then have "concat (map (\<lambda>k. qsa_incl sel_mermaid (reset_mounts srcs k)) ks)
        = concat (map (\<lambda>k. map (reset_mount srcs) (qsa_incl sel_mermaid k)) ks)"
      by (rule arg_cong)
    then have kids: "concat (map (qsa_incl (has_class ''mermaid'') \<circ> reset_mounts srcs) ks)
        = map (reset_mount srcs) (concat (map (qsa_incl (has_class ''mermaid'')) ks))"
      by (simp only: comp_def sel_mermaid_def map_concat map_map)
    show ?thesis by (simp add: False kids sel_mermaid_def)
  qed
qed

lemma reset_mount_raw:
  assumes "reset_applies srcs m" and "sel_mermaid m"
  shows "raw srcs (reset_mount srcs m)"
proof -
  from assms(1) obtain src where src: "source_at srcs (block_index m) = Some src" and ne: "src \<noteq> []"
    by (auto simp: reset_applies_def split: option.splits)
  from assms(2) obtain tg cl at st ks where m: "m = Elem tg cl at st ks"
    by (cases m) (simp_all add: sel_mermaid_def)
  have r: "reset_mount srcs m = removeAttribute ''data-processed'' (set_textContent src m)"
    using assms(1) src by (simp add: reset_mount_def)
  have 1: "source_at srcs (block_index (removeAttribute ''data-processed'' (set_textContent src m))) = Some src"
    by (simp only: block_index_reset src)
  have 2: "children (removeAttribute ''data-processed'' (set_textContent src m)) = [Text src]"
    using ne by (simp add: m text_nodes_def)
  have 3: "getAttribute (removeAttribute ''data-processed'' (set_textContent src m)) ''data-processed'' = None"
    by (simp add: m map_of_removeAttr)
  show ?thesis
    by (simp add: r raw_def 1 2 3 ne)
qed

lemma engine_rendersD:
  assumes "engine_renders E srcs d0 th"
  obtains r where "mermaid_run E (Some (pass_config th)) (qsa_incl sel_mermaid d0) d0 = (r, True)"
    and "reset_mounts srcs r = d0" and "qsa_incl sel_container r = []"
    and "\<forall>m \<in> set (qsa_incl sel_mermaid r). rendered m \<and> reset_applies srcs m"
  using assms
  by (auto simp: engine_renders_def pass_config_def list_all_iff split: prod.splits)

lemma teardown_after_enhance:
  assumes "reset_mounts srcs r = d0" and "qsa_incl sel_container r = []"
    and r: "\<And>m. m \<in> set (qsa_incl sel_mermaid r) \<Longrightarrow> rendered m \<and> reset_applies srcs m"
  shows "teardown srcs (enhance E False r) = d0"
proof -
  have flat: "querySelectorAll sel_mermaid m = []" if "m \<in> set (qsa_incl sel_mermaid r)" for m
    using r [OF that] by (simp add: rendered_flat)
  have "unwrap_containers srcs (enhance E False r) = enhance E False r"
  proof (rule unwrap_containers_id)
    fix c assume "c \<in> set (qsa_incl sel_container (enhance E False r))"
    with flat assms(2) show "querySelectorAll sel_mermaid c = []"
      by (intro new_containers_hold_no_mounts [of r False c E]) simp_all
  qed
  moreover have "reset_mounts srcs (enhance E False r) = reset_mounts srcs r"
    by (rule reset_after_enhance) (simp add: r)
  ultimately show ?thesis by (simp add: teardown_def assms(1))
qed

lemma enhanced_after_pass:
  assumes "reset_mounts srcs r = d0" and "qsa_incl sel_container r = []"
    and r: "\<And>m. m \<in> set (qsa_incl sel_mermaid r) \<Longrightarrow> rendered m \<and> reset_applies srcs m"
  shows "list_all enhanced (qsa_incl sel_mermaid (enhance E False r))"
    and "length (qsa_incl sel_mermaid (enhance E False r)) = length (qsa_incl sel_mermaid d0)"
    and "list_all (raw srcs) (qsa_incl sel_mermaid d0)"
    and "qsa_incl sel_container d0 = []"
proof -
  have flat: "querySelectorAll sel_mermaid m = []" if "m \<in> set (qsa_incl sel_mermaid r)" for m
    using r [OF that] by (simp add: rendered_flat)
  have mounts: "qsa_incl sel_mermaid (enhance E False r) = map (enhance E False) (qsa_incl sel_mermaid r)"
    by (rule mounts_enhance) (simp_all add: flat)
  have mounts0: "qsa_incl sel_mermaid d0 = map (reset_mount srcs) (qsa_incl sel_mermaid r)"
    using mounts_reset [of r srcs] flat assms(1) by simp
  show "list_all enhanced (qsa_incl sel_mermaid (enhance E False r))"
    unfolding mounts list_all_iff
  proof
    fix x assume "x \<in> set (map (enhance E False) (qsa_incl sel_mermaid r))"
    then obtain m where m: "m \<in> set (qsa_incl sel_mermaid r)" and x: "x = enhance E False m" by auto
    from m have "rendered m" using r by simp
    moreover from m have "sel_mermaid m" by (rule qsa_incl_sat)
    ultimately show "enhanced x" unfolding x by (rule enhance_rendered)
  qed
  show "length (qsa_incl sel_mermaid (enhance E False r)) = length (qsa_incl sel_mermaid d0)"
    by (simp add: mounts mounts0)
  show "list_all (raw srcs) (qsa_incl sel_mermaid d0)"
    unfolding mounts0 list_all_iff
  proof
    fix x assume "x \<in> set (map (reset_mount srcs) (qsa_incl sel_mermaid r))"
    then obtain m where m: "m \<in> set (qsa_incl sel_mermaid r)" and x: "x = reset_mount srcs m" by auto
    from m have "reset_applies srcs m" using r by simp
    moreover from m have "sel_mermaid m" by (rule qsa_incl_sat)
    ultimately show "raw srcs x" unfolding x by (rule reset_mount_raw)
  qed
  show "qsa_incl sel_container d0 = []"
    using containers_reset [OF assms(2), of srcs] assms(1) by simp
qed

lemma complete_pass_fields:
  assumes "passes s = [AwaitingDelay]" and "doc s = d0" and "engine_config s = Some (pass_config th)"
    and "mermaid_run E (Some (pass_config th)) (qsa_incl sel_mermaid d0) d0 = (r, True)"
  shows "passes (complete_pass E s) = []" and "doc (complete_pass E s) = enhance E False r"
    and "observing (complete_pass E s) = observing s"
    and "mermaidSources (complete_pass E s) = mermaidSources s"
proof -
  have "renderMermaidDiagrams_after_delay E 0 s =
     s\<lparr>console := console s @ [LogRendering (length (qsa_incl sel_mermaid (doc s)))],
       calls := calls s @ [Run (qsa_incl sel_mermaid (doc s))],
       doc := r, passes := (passes s)[0 := AwaitingRun True]\<rparr>"
    by (rule after_delay_state) (simp_all add: assms)
  then show "passes (complete_pass E s) = []" and "doc (complete_pass E s) = enhance E False r"
    and "observing (complete_pass E s) = observing s"
    and "mermaidSources (complete_pass E s) = mermaidSources s"
    by (simp_all add: complete_pass_def renderMermaidDiagrams_after_run_def assms(1) Let_def)
qed

lemma theme_change_fields:
  assumes "observing s" and "passes s = []"
  shows "passes (theme_change E v s) = [AwaitingDelay]"
    and "doc (theme_change E v s) = teardown (mermaidSources s) (doc s)"
    and "engine_config (theme_change E v s) = Some (pass_config (getCurrentTheme v))"
    and "observing (theme_change E v s)"
    and "mermaidSources (theme_change E v s) = mermaidSources s"
  using assms
  by (simp_all add: theme_change_def renderMermaidDiagrams_start_def Let_def pass_config_def)

lemma getCurrentTheme_cases: "getCurrentTheme v = ''neutral'' \<or> getCurrentTheme v = ''dark''"
  by (simp add: getCurrentTheme_def)

lemma settled_toggle:
  assumes n: "engine_renders E srcs d0 ''neutral''" and d: "engine_renders E srcs d0 ''dark''"
    and s: "settled E srcs d0 s"
  shows "doc (theme_change E v s) = d0" and "settled E srcs d0 (complete_pass E (theme_change E v s))"
proof -
  from s obtain th where th: "th = ''neutral'' \<or> th = ''dark''"
    and doc: "doc s = enhance E False (fst (mermaid_run E (Some (pass_config th)) (qsa_incl sel_mermaid d0) d0))"
    and ps: "passes s = []" and ob: "observing s" and ms: "mermaidSources s = srcs"
    by (auto simp: settled_def)
  from th n d have "engine_renders E srcs d0 th" by auto
  then obtain r where run: "mermaid_run E (Some (pass_config th)) (qsa_incl sel_mermaid d0) d0 = (r, True)"
    and r0: "reset_mounts srcs r = d0" "qsa_incl sel_container r = []"
      "\<forall>m \<in> set (qsa_incl sel_mermaid r). rendered m \<and> reset_applies srcs m"
    by (rule engine_rendersD)
  from r0 have r: "reset_mounts srcs r = d0" "qsa_incl sel_container r = []"
      "\<And>m. m \<in> set (qsa_incl sel_mermaid r) \<Longrightarrow> rendered m \<and> reset_applies srcs m"
    by simp_all
  have "teardown srcs (enhance E False r) = d0" using r by (rule teardown_after_enhance)
  then show doc1: "doc (theme_change E v s) = d0"
    using theme_change_fields(2) [OF ob ps, of E v] by (simp add: doc run ms)
  let ?th = "getCurrentTheme v"
  have "engine_renders E srcs d0 ?th" using getCurrentTheme_cases [of v] n d by auto
  then obtain r' where run': "mermaid_run E (Some (pass_config ?th)) (qsa_incl sel_mermaid d0) d0 = (r', True)"
    by (rule engine_rendersD)
  note f = complete_pass_fields [OF theme_change_fields(1) [OF ob ps] doc1 theme_change_fields(3) [OF ob ps] run']
  show "settled E srcs d0 (complete_pass E (theme_change E v s))"
    unfolding settled_def
    using f theme_change_fields(4,5) [OF ob ps, of E v] ms getCurrentTheme_cases [of v] run'
    by (intro conjI exI [of _ ?th]) simp_all
qed

lemma settled_toggles:
  assumes n: "engine_renders E srcs d0 ''neutral''" and d: "engine_renders E srcs d0 ''dark''"
  shows "settled E srcs d0 s \<Longrightarrow> settled E srcs d0 (toggles E vs s)"
proof (induction vs arbitrary: s)
  case Nil
  then show ?case by simp
next
  case (Cons v vs)
  from n d Cons.prems have "settled E srcs d0 (complete_pass E (theme_change E v s))"
    by (rule settled_toggle(2))
  then show ?case by (simp add: Cons.IH)
qed

lemma digit_chars:
  "\<forall>d \<in> set [0..<10].
     digit_of (char_of (48 + d)) = Some d \<and> \<not> js_space (char_of (48 + d))
     \<and> char_of (48 + d) \<noteq> CHR ''-'' \<and> char_of (48 + d) \<noteq> CHR ''+''
     \<and> char_of (48 + d) \<noteq> CHR ''x'' \<and> char_of (48 + d) \<noteq> CHR ''X''"
  by code_simp

lemma digit_char:
  fixes d :: nat
  assumes "d < 10"
  shows "digit_of (char_of (48 + d)) = Some d"
    and "\<not> js_space (char_of (48 + d))"
    and "char_of (48 + d) \<noteq> CHR ''-''" and "char_of (48 + d) \<noteq> CHR ''+''"
    and "char_of (48 + d) \<noteq> CHR ''x''" and "char_of (48 + d) \<noteq> CHR ''X''"
proof -
  from assms have "d \<in> set [0..<10]" by simp
  with digit_chars show "digit_of (char_of (48 + d)) = Some d"
    and "\<not> js_space (char_of (48 + d))"
    and "char_of (48 + d) \<noteq> CHR ''-''" and "char_of (48 + d) \<noteq> CHR ''+''"
    and "char_of (48 + d) \<noteq> CHR ''x''" and "char_of (48 + d) \<noteq> CHR ''X''"
    by blast+
qed

lemma show_nat_digits:
  "\<exists>ds. ds \<noteq> [] \<and> (\<forall>d \<in> set ds. d < 10) \<and> show_nat n = map (\<lambda>d. char_of (48 + d)) ds
     \<and> foldl (\<lambda>a d. a * 10 + d) 0 ds = n"
proof (induction n rule: show_nat.induct)
  case (1 n)
  show ?case
  proof (cases "n < 10")
    case True
    then show ?thesis
      by (intro exI [of _ "[n]"]) (simp add: show_nat.simps [of n])
  next
    case False
    with 1 obtain ds where ds: "ds \<noteq> []" "\<forall>d \<in> set ds. d < 10"
      "show_nat (n div 10) = map (\<lambda>d. char_of (48 + d)) ds"
      "foldl (\<lambda>a d. a * 10 + d) 0 ds = n div 10"
      by blast
    show ?thesis
      using False ds
      by (intro exI [of _ "ds @ [n mod 10]"]) (simp add: show_nat.simps [of n])
  qed
qed

lemma digits_prefix_digits:
  "\<forall>d \<in> set ds. d < 10 \<Longrightarrow> digits_prefix 10 (map (\<lambda>d. char_of (48 + d)) ds) = ds"
  by (induction ds) (simp_all add: digit_char(1))

lemma parseInt_show_nat: "parseInt (show_nat n) = Some (int n)"
proof -
  obtain ds where ds: "ds \<noteq> []" "\<forall>d \<in> set ds. d < 10"
    "show_nat n = map (\<lambda>d. char_of (48 + d)) ds" "foldl (\<lambda>a d. a * 10 + d) 0 ds = n"
    using show_nat_digits by blast
  from ds(1) obtain d ds' where dd: "ds = d # ds'" by (cases ds) auto
  with ds(2) have d: "d < 10" by simp
  have sp: "dropWhile js_space (show_nat n) = show_nat n"
    by (simp add: ds(3) dd digit_char(2) [OF d])
  have sg: "read_sign (show_nat n) = (False, show_nat n)"
    by (simp add: ds(3) dd read_sign_def digit_char(3,4) [OF d])
  have rx: "read_radix (show_nat n) = (10, show_nat n)"
  proof (cases ds')
    case Nil
    then show ?thesis by (simp add: ds(3) dd read_radix_def)
  next
    case (Cons e es)
    with ds(2) dd have "e < 10" by simp
    then show ?thesis
      by (simp add: ds(3) dd Cons read_radix_def digit_char(5,6))
  qed
  have dp: "digits_prefix 10 (show_nat n) = ds"
    unfolding ds(3) using ds(2) by (rule digits_prefix_digits)
  show ?thesis
    using ds(1) ds(4) by (simp add: parseInt_def sp sg rx dp Let_def)
qed

lemma block_index_mount_div: "block_index (mount_div content index) = Some (int index)"
  by (simp add: block_index_def mount_div_def parseInt_show_nat)

lemma c_sources_replaceWith [simp]: "c_sources (replaceWith t new c) = c_sources c"
  by (simp add: replaceWith_def)

lemma convert_block_codeless: "source_of E x = None \<Longrightarrow> convert_block E d0 x j c = c"
  by (simp add: source_of_def convert_block_def split: option.splits)

lemma convert_block_sources:
  "c_sources (convert_block E d0 b j c)
     = c_sources c @ (case source_of E b of None \<Rightarrow> [] | Some x \<Rightarrow> [x])"
  by (simp add: source_of_def convert_block_def Let_def split: option.splits)

lemma forEach_sources:
  "c_sources (forEach (convert_block E d0) bs j c) = c_sources c @ List.map_filter (source_of E) bs"
proof (induction bs arbitrary: j c)
  case Nil
  show ?case by (simp add: List.map_filter_simps)
next
  case (Cons b bs)
  show ?case
    by (simp add: Cons.IH convert_block_sources List.map_filter_simps split: option.splits)
qed

lemma forEach_append:
  "forEach f (xs @ ys) j c = forEach f ys (j + length xs) (forEach f xs j c)"
  by (induction xs arbitrary: j c) simp_all

lemma length_map_filter_le: "length (List.map_filter f xs) \<le> length xs"
  by (induction xs) (simp_all add: List.map_filter_simps split: option.splits)

lemma in_ancestor_chain: "q \<in> set (ancestor_chain p) \<longleftrightarrow> prefix q p"
proof
  assume "q \<in> set (ancestor_chain p)"
  then show "prefix q p" by (auto simp: ancestor_chain_def take_is_prefix)
next
  assume "prefix q p"
  then obtain r where p: "p = q @ r" by (auto simp: prefix_def)
  have "take (length q) p = q" by (simp add: p)
  moreover have "length q \<in> set (rev [0..<Suc (length p)])" by (simp add: p)
  ultimately show "q \<in> set (ancestor_chain p)"
    unfolding ancestor_chain_def by (metis image_eqI set_map)
qed

lemma closest_figure_in:
  "closest_figure d0 R ch = Some q \<Longrightarrow> q \<in> set ch \<and> node_at d0 q \<noteq> None"
  by (induction ch) (auto split: option.splits if_splits)

lemma closest_figure_same:
  "\<forall>q \<in> set ch. q \<notin> set R \<Longrightarrow> closest_figure d0 R ch = closest_figure d0 [] ch"
  by (induction ch) (auto split: option.splits)

lemma target_prefix: "prefix (target d0 b) (fst b)"
proof (cases "closest_figure d0 [] (ancestor_chain (fst b))")
  case None
  then show ?thesis by (simp add: target_def)
next
  case (Some q)
  then have "q \<in> set (ancestor_chain (fst b))" by (simp add: closest_figure_in)
  then show ?thesis using Some by (simp add: target_def in_ancestor_chain)
qed

lemma target_exists: "node_at d0 (fst b) \<noteq> None \<Longrightarrow> node_at d0 (target d0 b) \<noteq> None"
  by (auto simp: target_def dest: closest_figure_in split: option.splits)

lemma node_at_replace_other:
  "\<not> prefix t p \<Longrightarrow> \<not> prefix p t \<Longrightarrow> node_at (replace_at t new n) p = node_at n p"
  "\<not> prefix (i # t) (j # p) \<Longrightarrow> \<not> prefix (j # p) (i # t) \<Longrightarrow>
     nth_node_at (replace_nth i t new ks) j p = nth_node_at ks j p"
proof (induction t new n and i t new ks arbitrary: p and j p rule: replace_at_replace_nth.induct)
  case (1 new n)
  then show ?case by simp
next
  case (2 i p' new t)
  then show ?case by simp
next
  case (3 i p' new tg cl at st ks)
  then show ?case by (cases p) simp_all
next
  case (4 i p' new)
  then show ?case by simp
next
  case (5 p' new k ks)
  then show ?case by (cases j) simp_all
next
  case (6 i p' new k ks)
  then show ?case by (cases j) simp_all
qed

lemma node_at_replace_same:
  "node_at n t \<noteq> None \<Longrightarrow> node_at (replace_at t new n) t = Some new"
  "nth_node_at ks i t \<noteq> None \<Longrightarrow> nth_node_at (replace_nth i t new ks) i t = Some new"
  by (induction t new n and i t new ks rule: replace_at_replace_nth.induct) simp_all

lemma convert_block_target:
  assumes b: "source_of E b = Some content"
    and R: "\<forall>r \<in> set (c_replaced c). \<not> prefix r (fst b)"
  shows "convert_block E d0 b index c =
     c\<lparr>c_doc := replace_at (target d0 b) (mount_div content index) (c_doc c),
       c_sources := c_sources c @ [content],
       c_console := c_console c @ [LogBlock index (take 100 content)],
       c_replaced := target d0 b # c_replaced c\<rparr>"
proof -
  from b obtain code where code: "querySelector sel_code (snd b) = Some code"
    and content: "content = block_content E code"
    by (auto simp: source_of_def split: option.splits)
  have none: "q \<notin> set (c_replaced c)" if "prefix q (fst b)" for q
    using that R by auto
  have same: "closest_figure d0 (c_replaced c) (ancestor_chain (fst b))
      = closest_figure d0 [] (ancestor_chain (fst b))"
    by (rule closest_figure_same) (simp add: in_ancestor_chain none)
  have pre: "prefix (target d0 b) (fst b)" by (rule target_prefix)
  have t: "target d0 b \<notin> set (c_replaced c)" using pre by (rule none)
  have anc: "\<not> list_ex (\<lambda>q. q \<in> set (c_replaced c)) (ancestor_chain (target d0 b))"
    using pre none by (auto simp: list_ex_iff in_ancestor_chain dest: prefix_order.trans)
  define c1 where "c1 = c\<lparr>c_sources := c_sources c @ [content],
      c_console := c_console c @ [LogBlock index (take 100 content)]\<rparr>"
  have cb: "convert_block E d0 b index c = replaceWith (target d0 b) (mount_div content index) c1"
    by (simp add: convert_block_def code content [symmetric] same Let_def target_def c1_def
        split: option.splits)
  have "c_replaced c1 = c_replaced c" by (simp add: c1_def)
  then have "replaceWith (target d0 b) (mount_div content index) c1 =
      c1\<lparr>c_doc := replace_at (target d0 b) (mount_div content index) (c_doc c1),
         c_replaced := target d0 b # c_replaced c1\<rparr>"
    using t anc by (simp add: replaceWith_def)
  then show ?thesis by (simp add: cb c1_def)
qed


lemma targets_Cons_None: "source_of E b = None \<Longrightarrow> targets E d0 (b # bs) = targets E d0 bs"
  by (simp add: targets_def)

lemma targets_Cons_Some:
  "source_of E b = Some x \<Longrightarrow> targets E d0 (b # bs) = target d0 b # targets E d0 bs"
  by (simp add: targets_def)

lemma convert_block_own_target:
  assumes b: "source_of E b = Some content"
    and sep: "\<forall>r \<in> set (c_replaced c). \<not> prefix (target d0 b) r \<and> \<not> prefix r (target d0 b)"
  shows "convert_block E d0 b index c =
     c\<lparr>c_doc := replace_at (target d0 b) (mount_div content index) (c_doc c),
       c_sources := c_sources c @ [content],
       c_console := c_console c @ [LogBlock index (take 100 content)],
       c_replaced := target d0 b # c_replaced c\<rparr>"
proof (rule convert_block_target [OF b], rule ballI)
  fix r assume r: "r \<in> set (c_replaced c)"
  show "\<not> prefix r (fst b)"
  proof
    assume "prefix r (fst b)"
    then have "prefix r (target d0 b) \<or> prefix (target d0 b) r"
      using target_prefix [of d0 b] by (rule prefix_same_cases)
    with sep r show False by blast
  qed
qed

lemma forEach_frame:
  assumes "apart (targets E d0 bs)"
    and "\<forall>t \<in> set (targets E d0 bs). \<forall>r \<in> set (c_replaced c). \<not> prefix t r \<and> \<not> prefix r t"
    and "\<forall>t \<in> set (targets E d0 bs). \<not> prefix t p \<and> \<not> prefix p t"
  shows "node_at (c_doc (forEach (convert_block E d0) bs index c)) p = node_at (c_doc c) p"
  using assms
proof (induction bs arbitrary: c index)
  case Nil
  show ?case by simp
next
  case (Cons b bs)
  show ?case
  proof (cases "source_of E b")
    case None
    then have "convert_block E d0 b index c = c" by (rule convert_block_codeless)
    then show ?thesis
      using Cons.IH [of c "Suc index"] Cons.prems by (simp add: targets_Cons_None [OF None])
  next
    case (Some content)
    let ?t = "target d0 b"
    let ?c' = "convert_block E d0 b index c"
    note ts = targets_Cons_Some [OF Some, of d0 bs]
    from Cons.prems(2) have sep: "\<forall>r \<in> set (c_replaced c). \<not> prefix ?t r \<and> \<not> prefix r ?t"
      by (simp add: ts)
    have c': "?c' = c\<lparr>c_doc := replace_at ?t (mount_div content index) (c_doc c),
       c_sources := c_sources c @ [content],
       c_console := c_console c @ [LogBlock index (take 100 content)],
       c_replaced := ?t # c_replaced c\<rparr>"
      using Some sep by (rule convert_block_own_target)
    from Cons.prems(1) have ap: "apart (targets E d0 bs)"
      and apt: "\<forall>u \<in> set (targets E d0 bs). \<not> prefix ?t u \<and> \<not> prefix u ?t"
      by (simp_all add: ts list_all_iff)
    have sep': "\<forall>u \<in> set (targets E d0 bs). \<forall>r \<in> set (c_replaced ?c'). \<not> prefix u r \<and> \<not> prefix r u"
      using Cons.prems(2) apt by (auto simp: ts c')
    from Cons.prems(3) have p: "\<forall>u \<in> set (targets E d0 bs). \<not> prefix u p \<and> \<not> prefix p u"
      and pt: "\<not> prefix ?t p" "\<not> prefix p ?t"
      by (simp_all add: ts)
    have "node_at (c_doc (forEach (convert_block E d0) bs (Suc index) ?c')) p = node_at (c_doc ?c') p"
      using ap sep' p by (rule Cons.IH)
    also have "\<dots> = node_at (c_doc c) p"
      using pt by (simp add: c' node_at_replace_other(1))
    finally show ?thesis by simp
  qed
qed

lemma forEach_mount:
  assumes "apart (targets E d0 bs)"
    and "\<forall>t \<in> set (targets E d0 bs). \<forall>r \<in> set (c_replaced c). \<not> prefix t r \<and> \<not> prefix r t"
    and "k < length bs" and "source_of E (bs ! k) = Some content"
    and "node_at (c_doc c) (target d0 (bs ! k)) \<noteq> None"
  shows "node_at (c_doc (forEach (convert_block E d0) bs index c)) (target d0 (bs ! k))
     = Some (mount_div content (index + k))"
  using assms
proof (induction bs arbitrary: c index k)
  case Nil
  then show ?case by simp
next
  case (Cons b bs)
  show ?case
  proof (cases "source_of E b")
    case None
    then have cb: "convert_block E d0 b index c = c" by (rule convert_block_codeless)
    from None Cons.prems(4) obtain k' where k: "k = Suc k'" by (cases k) auto
    show ?thesis
      using Cons.IH [of c k' "Suc index"] Cons.prems
      by (simp add: targets_Cons_None [OF None] cb k)
  next
    case (Some content0)
    let ?t = "target d0 b"
    let ?c' = "convert_block E d0 b index c"
    note ts = targets_Cons_Some [OF Some, of d0 bs]
    from Cons.prems(2) have sep: "\<forall>r \<in> set (c_replaced c). \<not> prefix ?t r \<and> \<not> prefix r ?t"
      by (simp add: ts)
    have c': "?c' = c\<lparr>c_doc := replace_at ?t (mount_div content0 index) (c_doc c),
       c_sources := c_sources c @ [content0],
       c_console := c_console c @ [LogBlock index (take 100 content0)],
       c_replaced := ?t # c_replaced c\<rparr>"
      using Some sep by (rule convert_block_own_target)
    from Cons.prems(1) have ap: "apart (targets E d0 bs)"
      and apt: "\<forall>u \<in> set (targets E d0 bs). \<not> prefix ?t u \<and> \<not> prefix u ?t"
      by (simp_all add: ts list_all_iff)
    have sep': "\<forall>u \<in> set (targets E d0 bs). \<forall>r \<in> set (c_replaced ?c'). \<not> prefix u r \<and> \<not> prefix r u"
      using Cons.prems(2) apt by (auto simp: ts c')
    show ?thesis
    proof (cases k)
      case 0
      with Some Cons.prems(4) have content: "content = content0" by simp
      from 0 Cons.prems(5) have ex: "node_at (c_doc c) ?t \<noteq> None" by simp
      have "node_at (c_doc (forEach (convert_block E d0) bs (Suc index) ?c')) ?t = node_at (c_doc ?c') ?t"
      proof (rule forEach_frame [OF ap sep'])
        show "\<forall>u \<in> set (targets E d0 bs). \<not> prefix u ?t \<and> \<not> prefix ?t u"
          using apt by blast
      qed
      also have "\<dots> = Some (mount_div content0 index)"
        using ex by (simp add: c' node_at_replace_same(1))
      finally show ?thesis by (simp add: 0 content)
    next
      case (Suc k')
      with Cons.prems(3,4) have k': "k' < length bs" and src: "source_of E (bs ! k') = Some content"
        by simp_all
      let ?u = "target d0 (bs ! k')"
      have "bs ! k' \<in> set (filter (\<lambda>b. source_of E b \<noteq> None) bs)" using k' src by simp
      then have "?u \<in> set (targets E d0 bs)" by (simp add: targets_def)
      with apt have "\<not> prefix ?t ?u" "\<not> prefix ?u ?t" by simp_all
      then have "node_at (c_doc ?c') ?u = node_at (c_doc c) ?u"
        by (simp add: c' node_at_replace_other(1))
      with Cons.prems(5) Suc have ex: "node_at (c_doc ?c') ?u \<noteq> None" by simp
      have "node_at (c_doc (forEach (convert_block E d0) bs (Suc index) ?c')) ?u
          = Some (mount_div content (Suc index + k'))"
        using ap sep' k' src ex by (rule Cons.IH)
      then show ?thesis by (simp add: Suc)
    qed
  qed
qed

lemma node_at_append:
  "node_at n (p @ r) = (case node_at n p of None \<Rightarrow> None | Some m \<Rightarrow> node_at m r)"
  "nth_node_at ks i (p @ r) = (case nth_node_at ks i p of None \<Rightarrow> None | Some m \<Rightarrow> node_at m r)"
proof (induction n p and ks i p rule: node_at_nth_node_at.induct)
  case (2 t i p)
  show ?case by simp
qed simp_all

lemma node_at_below:
  "node_at n p = Some m \<Longrightarrow> set (qsa_incl P m) \<subseteq> set (qsa_incl P n)"
  "nth_node_at ks i p = Some m \<Longrightarrow> \<exists>k \<in> set ks. set (qsa_incl P m) \<subseteq> set (qsa_incl P k)"
proof (induction n p and ks i p rule: node_at_nth_node_at.induct)
  case (3 tg cl at st ks i p)
  then show ?case by auto
qed auto

lemma qsa_within: "set (querySelectorAll P n) \<subseteq> set (qsa_incl P n)"
  by (cases n) (auto simp: querySelectorAll_def)

lemma node_at_below_proper:
  assumes "node_at n p = Some m"
  shows "set (querySelectorAll P m) \<subseteq> set (querySelectorAll P n)"
proof (cases p)
  case Nil
  with assms show ?thesis by simp
next
  case (Cons i r)
  with assms obtain tg cl at st ks where n: "n = Elem tg cl at st ks" by (cases n) auto
  with assms Cons have "nth_node_at ks i r = Some m" by simp
  then obtain k where "k \<in> set ks" "set (qsa_incl P m) \<subseteq> set (qsa_incl P k)"
    using node_at_below(2) by blast
  then have "set (qsa_incl P m) \<subseteq> set (querySelectorAll P n)"
    by (auto simp: n querySelectorAll_def)
  with qsa_within [of P m] show ?thesis by blast
qed

lemma qsa_paths_node_at:
  "(p, n) \<in> set (qsa_paths P p0 d) \<Longrightarrow> \<exists>r. p = p0 @ r \<and> node_at d r = Some n"
  "(p, n) \<in> set (qsa_paths_from P p0 i ks) \<Longrightarrow> \<exists>j r. p = p0 @ (i + j) # r \<and> nth_node_at ks j r = Some n"
proof (induction P p0 d and P p0 i ks rule: qsa_paths_qsa_paths_from.induct)
  case (1 P p0 t)
  then show ?case by simp
next
  case (2 P p0 tg cl at st ks)
  from 2(2) consider "p = p0 \<and> n = Elem tg cl at st ks" | "(p, n) \<in> set (qsa_paths_from P p0 0 ks)"
    by (auto split: if_splits)
  then show ?case
  proof cases
    case 1
    then show ?thesis by simp
  next
    case 2
    then obtain j r where "p = p0 @ (0 + j) # r" "nth_node_at ks j r = Some n"
      using "2.IH" by blast
    then show ?thesis by (intro exI [of _ "j # r"]) simp
  qed
next
  case (3 P p0 i)
  then show ?case by simp
next
  case (4 P p0 i k ks)
  from 4(3) consider "(p, n) \<in> set (qsa_paths P (p0 @ [i]) k)" | "(p, n) \<in> set (qsa_paths_from P p0 (Suc i) ks)"
    by auto
  then show ?case
  proof cases
    case 1
    then obtain r where "p = (p0 @ [i]) @ r" "node_at k r = Some n" using "4.IH"(1) by blast
    then show ?thesis by (intro exI [of _ 0] exI [of _ r]) simp
  next
    case 2
    then obtain j r where "p = p0 @ (Suc i + j) # r" "nth_node_at ks j r = Some n"
      using "4.IH"(2) by blast
    then show ?thesis by (intro exI [of _ "Suc j"] exI [of _ r]) simp
  qed
qed

lemma listed_node_at: "b \<in> set (qsa_paths P [] d) \<Longrightarrow> node_at d (fst b) = Some (snd b)"
  using qsa_paths_node_at(1) [of "fst b" "snd b" P "[]" d] by simp

lemma source_of_None: "source_of E b = None \<longleftrightarrow> querySelectorAll sel_code (snd b) = []"
  by (simp add: source_of_def querySelector_def split: list.splits)

lemma codeless_holds_no_block:
  assumes x: "node_at d0 (fst x) = Some (snd x)" "source_of E x = None"
    and b: "node_at d0 (fst b) = Some (snd b)" "source_of E b = Some content"
  shows "\<not> prefix (fst x) (fst b)"
proof
  assume "prefix (fst x) (fst b)"
  then obtain r where r: "fst b = fst x @ r" by (auto simp: prefix_def)
  with x(1) b(1) have "node_at (snd x) r = Some (snd b)" by (simp add: node_at_append(1))
  then have "set (querySelectorAll sel_code (snd b)) \<subseteq> set (querySelectorAll sel_code (snd x))"
    by (rule node_at_below_proper)
  with x(2) have "querySelectorAll sel_code (snd b) = []" by (simp add: source_of_None)
  then have "source_of E b = None" by (simp add: source_of_None)
  with b(2) show False by simp
qed


lemma map_filter_append: "List.map_filter f (xs @ ys) = List.map_filter f xs @ List.map_filter f ys"
  by (simp add: List.map_filter_def)

lemma map_filter_skips:
  "j < length xs \<Longrightarrow> f (xs ! j) = None \<Longrightarrow> length (List.map_filter f xs) < length xs"
proof (induction xs arbitrary: j)
  case Nil
  then show ?case by simp
next
  case (Cons x xs)
  show ?case
  proof (cases j)
    case 0
    with Cons.prems have "f x = None" by simp
    then show ?thesis
      using length_map_filter_le [of f xs] by (simp add: List.map_filter_simps)
  next
    case (Suc j')
    with Cons.prems have "length (List.map_filter f xs) < length xs" by (intro Cons.IH [of j']) simp_all
    then show ?thesis by (simp add: List.map_filter_simps split: option.splits)
  qed
qed

lemma teardown_id:
  assumes "qsa_incl sel_mermaid d = []" and "qsa_incl sel_container d = []"
  shows "teardown srcs d = d"
proof -
  have "unwrap_containers srcs d = d"
    by (rule unwrap_containers_id) (simp add: assms(2))
  then show ?thesis by (simp add: teardown_def reset_mounts_id assms(1))
qed

lemma enhance_without_mounts: "qsa_incl sel_mermaid d = [] \<Longrightarrow> enhance E False d = d"
proof -
  assume a: "qsa_incl sel_mermaid d = []"
  then have "qsa_mermaid_svg False d = []" using svgs_by_mount [of d] by simp
  then show ?thesis by (rule enhance_id)
qed

section \<open>Theme and engine configuration\<close>

text \<open>
  C6. Whatever the \<^verbatim>\<open>data-theme\<close> attribute is (\<open>None\<close>: absent), the palette is the
  light one (\<^verbatim>\<open>neutral\<close>) exactly when the attribute is \<^verbatim>\<open>light\<close>, and the dark
  one otherwise. A render pass started in any state configures the engine with that palette and
  the log level \<^verbatim>\<open>error\<close>, and that configuration is the one in force when the pass makes
  its batch call, which comes after it in the engine's call trace.
\<close>

theorem palette_and_engine_configuration:
  "(getCurrentTheme th = ''neutral'') = (th = Some ''light'')
   \<and> (getCurrentTheme th = ''dark'') = (th \<noteq> Some ''light'')
   \<and> (let cfg = \<lparr>startOnLoad = False, theme = getCurrentTheme (data_theme s), logLevel = ''error''\<rparr>;
           s1 = renderMermaidDiagrams_start E s;
           s2 = renderMermaidDiagrams_after_delay E (length (passes s)) s1
       in engine_config s1 = Some cfg
          \<and> calls s1 = calls s @ [Initialize cfg]
          \<and> calls s2 = calls s @ [Initialize cfg, Run (qsa_incl sel_mermaid (doc s1))]
          \<and> doc s2 = fst (mermaid_run E (Some cfg) (qsa_incl sel_mermaid (doc s1)) (doc s1)))"
  by (simp add: getCurrentTheme_def renderMermaidDiagrams_start_def
      renderMermaidDiagrams_after_delay_def Let_def nth_append split: prod.splits)

theorem palette_and_engine_configuration_witness:
  "getCurrentTheme None = ''dark'' \<and> getCurrentTheme (Some ''light'') = ''neutral''
   \<and> engine_config (renderMermaidDiagrams_start sample_env (fresh_page (page_of []) (Some ''light'')))
       = Some \<lparr>startOnLoad = False, theme = ''neutral'', logLevel = ''error''\<rparr>"
  using palette_and_engine_configuration [of None "fresh_page (page_of []) (Some ''light'')" sample_env]
    palette_and_engine_configuration [of "Some ''light''" "fresh_page (page_of []) (Some ''light'')" sample_env]
  by (simp add: Let_def fresh_page_def)

section \<open>Passes in flight\<close>

text \<open>
  C1, as the code has it. Nothing serialises the passes: the load handler and every observed
  change of \<^verbatim>\<open>data-theme\<close> start a new invocation at once, whatever is in flight, so
  each adds one to the invocations in flight; after the load and the theme changes \<open>vs\<close>, with
  no delay or batch call completing in between, \<open>length vs + 1\<close> invocations are in flight.
\<close>

theorem every_event_starts_a_pass:
  "in_flight (page_load E s) = Suc (in_flight s)
   \<and> (observing s \<longrightarrow> in_flight (theme_change E v s) = Suc (in_flight s))
   \<and> in_flight (fold (theme_change E) vs (page_load E (fresh_page d th))) = Suc (length vs)"
  using fold_theme_change [of "page_load E (fresh_page d th)" E vs]
  by (simp add: in_flight_def passes_page_load passes_theme_change observing_page_load fresh_page_def)

theorem every_event_starts_a_pass_witness:
  "observing (page_load sample_env (fresh_page (page_of []) None))
   \<and> in_flight (theme_change sample_env (Some ''light'') (page_load sample_env (fresh_page (page_of []) None)))
       = Suc (in_flight (page_load sample_env (fresh_page (page_of []) None)))
   \<and> in_flight (fold (theme_change sample_env) [Some ''light'', Some ''dark'']
        (page_load sample_env (fresh_page (page_of []) None))) = 3"
  using every_event_starts_a_pass [of sample_env "page_load sample_env (fresh_page (page_of []) None)"
      "Some ''light''" "[Some ''light'', Some ''dark'']" "page_of []" None]
  by (simp add: observing_page_load)

text \<open>
  C1, as the claim states it, fails: a theme change right after the load leaves two invocations
  in flight, both at their delay; and a theme change while the first invocation awaits its
  batch call starts a second one beside it.
\<close>

theorem two_passes_in_flight:
  "in_flight (theme_change sample_env (Some ''light'')
      (page_load sample_env (fresh_page (page_of [diagram_block ''graph TD'']) (Some ''dark'')))) = 2
   \<and> passes (theme_change sample_env (Some ''light'')
      (renderMermaidDiagrams_after_delay sample_env 0
        (page_load sample_env (fresh_page (page_of [diagram_block ''graph TD'']) (Some ''dark'')))))
      = [AwaitingRun True, AwaitingDelay]"
  by (simp add: in_flight_def passes_theme_change passes_page_load observing_page_load fresh_page_def
      renderMermaidDiagrams_after_delay_def sample_env_def Let_def observing_theme_change
      split: prod.splits)

section \<open>Fault isolation\<close>

text \<open>
  C2, as the code has it. The pass does nothing about a single diagram that fails: lines 148 to
  163 are one \<^verbatim>\<open>try\<close> around the batch call and the loop over the graphics, and the
  batch call is made without \<^verbatim>\<open>suppressErrors\<close>. Take a pass at its delay whose batch
  call leaves the mount elements \<open>xs @ [bad] @ ys\<close>: every element of \<open>xs\<close> and \<open>ys\<close> holds
  one rendered graphic, and \<open>bad\<close>, the element with the malformed source, holds what the engine
  has put there, with \<open>n\<close> \<^verbatim>\<open>svg\<close> elements and no mount element in it. The pass
  returns in either case.
  When the batch call rejects, the \<^verbatim>\<open>catch\<close> writes one console error and the
  document stays as the engine left it: no viewport container is added, for no diagram. When the
  batch call resolves, the loop wraps every \<^verbatim>\<open>svg\<close> below a mount element: it adds
  \<open>length xs + length ys + n\<close> containers by as many calls of \<^verbatim>\<open>addZoomControls\<close>, one
  in each valid mount element and \<open>n\<close> in the malformed one, which stays as the engine left it
  when \<open>n = 0\<close>; the console gets no rendering error.
\<close>

theorem batch_outcome_decides_enhancements:
  assumes i: "i < length (passes s)" and del: "passes s ! i = AwaitingDelay"
    and run: "mermaid_run E (engine_config s) (qsa_incl sel_mermaid (doc s)) (doc s) = (d1, ok)"
    and ms: "qsa_incl sel_mermaid d1 = xs @ [bad] @ ys"
    and valid: "\<forall>m \<in> set (xs @ ys). rendered m"
    and flat: "querySelectorAll sel_mermaid bad = []"
  shows "let s' = renderMermaidDiagrams_after_run E i (renderMermaidDiagrams_after_delay E i s);
             n = length (querySelectorAll sel_svg bad)
         in passes s' = take i (passes s) @ drop (Suc i) (passes s)
          \<and> (\<not> ok \<longrightarrow>
                doc s' = d1
              \<and> console s' = console s
                   @ [LogRendering (length (qsa_incl sel_mermaid (doc s))), ErrRenderingFailed])
          \<and> (ok \<longrightarrow>
                length (qsa_incl sel_container (doc s'))
                  = length (qsa_incl sel_container d1) + (length xs + length ys + n)
              \<and> length (zoom_lines E (qsa_mermaid_svg False d1)) = length xs + length ys + n
              \<and> qsa_incl sel_mermaid (doc s')
                  = map (enhance E False) xs @ [enhance E False bad] @ map (enhance E False) ys
              \<and> (\<forall>m \<in> set (xs @ ys). enhanced (enhance E False m))
              \<and> length (querySelectorAll sel_container (enhance E False bad))
                  = length (querySelectorAll sel_container bad) + n
              \<and> (n = 0 \<longrightarrow> enhance E False bad = bad)
              \<and> console s' = console s
                   @ [LogRendering (length (qsa_incl sel_mermaid (doc s))), LogRenderingComplete]
                   @ zoom_lines E (qsa_mermaid_svg False d1))"
proof -
  let ?s1 = "renderMermaidDiagrams_after_delay E i s"
  let ?s' = "renderMermaidDiagrams_after_run E i ?s1"
  let ?n = "length (querySelectorAll sel_svg bad)"
  have s1: "?s1 = s\<lparr>console := console s @ [LogRendering (length (qsa_incl sel_mermaid (doc s)))],
       calls := calls s @ [Run (qsa_incl sel_mermaid (doc s))],
       doc := d1, passes := (passes s)[i := AwaitingRun ok]\<rparr>"
    using i del run by (rule after_delay_state)
  have pas': "passes ?s' = take i (passes s) @ drop (Suc i) (passes s)"
    using i by (simp add: s1 renderMermaidDiagrams_after_run_def Let_def)
  have rej: "doc ?s' = d1"
      "console ?s' = console s @ [LogRendering (length (qsa_incl sel_mermaid (doc s))), ErrRenderingFailed]"
    if "\<not> ok"
    using i that by (simp_all add: s1 renderMermaidDiagrams_after_run_def Let_def)
  have res: "doc ?s' = enhance E False d1"
      "console ?s' = console s @ [LogRendering (length (qsa_incl sel_mermaid (doc s))), LogRenderingComplete]
         @ zoom_lines E (qsa_mermaid_svg False d1)"
    if ok
    using i that by (simp_all add: s1 renderMermaidDiagrams_after_run_def Let_def)
  have mermaid: "sel_mermaid m" if "m \<in> set (xs @ [bad] @ ys)" for m
    using that ms qsa_incl_sat [of m sel_mermaid d1] by simp
  have flat': "querySelectorAll sel_mermaid m = []" if "m \<in> set (qsa_incl sel_mermaid d1)" for m
    using that ms valid flat by (auto simp: rendered_flat)
  have svgs: "qsa_mermaid_svg False d1 = concat (map (querySelectorAll sel_svg) (xs @ [bad] @ ys))"
    using svgs_by_mount [of d1] flat' ms by simp
  have "length (concat (map (querySelectorAll sel_svg) xs)) = length xs"
    by (rule length_concat_ones) (use valid in \<open>simp add: rendered_svgs\<close>)
  moreover have "length (concat (map (querySelectorAll sel_svg) ys)) = length ys"
    by (rule length_concat_ones) (use valid in \<open>simp add: rendered_svgs\<close>)
  ultimately have n: "length (qsa_mermaid_svg False d1) = length xs + length ys + ?n"
    by (simp add: svgs)
  have mounts: "qsa_incl sel_mermaid (enhance E False d1) = map (enhance E False) (qsa_incl sel_mermaid d1)"
    by (rule mounts_enhance) (simp_all add: flat')
  have enh: "\<forall>m \<in> set (xs @ ys). enhanced (enhance E False m)"
  proof
    fix m assume m: "m \<in> set (xs @ ys)"
    then have "rendered m" using valid by simp
    moreover have "sel_mermaid m" using m mermaid by auto
    ultimately show "enhanced (enhance E False m)" by (rule enhance_rendered)
  qed
  have "sel_mermaid bad" by (rule mermaid) simp
  then have badc: "length (querySelectorAll sel_container (enhance E False bad))
      = length (querySelectorAll sel_container bad) + ?n"
    using flat by (rule containers_in_mount)
  have same: "?n = 0 \<longrightarrow> enhance E False bad = bad"
    by (simp add: enhance_no_svg)
  have resolved: "length (qsa_incl sel_container (doc ?s'))
        = length (qsa_incl sel_container d1) + (length xs + length ys + ?n)
      \<and> length (zoom_lines E (qsa_mermaid_svg False d1)) = length xs + length ys + ?n
      \<and> qsa_incl sel_mermaid (doc ?s')
        = map (enhance E False) xs @ [enhance E False bad] @ map (enhance E False) ys"
    if ok
    by (simp add: res(1) [OF that] containers_enhance n zoom_lines_length mounts ms)
  show ?thesis
    unfolding Let_def
    using pas' rej res(2) resolved enh badc same by blast
qed

lemma one_unreadable_1: "0 < length (passes one_unreadable)" by code_simp
lemma one_unreadable_2: "passes one_unreadable ! 0 = AwaitingDelay" by code_simp
lemma one_unreadable_3: "mermaid_run strict_env (engine_config one_unreadable)
     (qsa_incl sel_mermaid (doc one_unreadable)) (doc one_unreadable)
   = (page_of [mount_after 0 [Elem ''svg'' [''dark''] [] [] []],
               mount_after 1 [error_graphic],
               mount_after 2 [Elem ''svg'' [''dark''] [] [] []]], False)" by code_simp
lemma one_unreadable_4: "mermaid_run lenient_env (engine_config one_unreadable)
     (qsa_incl sel_mermaid (doc one_unreadable)) (doc one_unreadable)
   = (page_of [mount_after 0 [Elem ''svg'' [''dark''] [] [] []],
               mount_after 1 [error_graphic],
               mount_after 2 [Elem ''svg'' [''dark''] [] [] []]], True)" by code_simp
lemma one_unreadable_5: "qsa_incl sel_mermaid (page_of [mount_after 0 [Elem ''svg'' [''dark''] [] [] []],
               mount_after 1 [error_graphic],
               mount_after 2 [Elem ''svg'' [''dark''] [] [] []]])
    = [mount_after 0 [Elem ''svg'' [''dark''] [] [] []]] @ [mount_after 1 [error_graphic]]
      @ [mount_after 2 [Elem ''svg'' [''dark''] [] [] []]]" by code_simp
lemma one_unreadable_6: "\<forall>m \<in> set ([mount_after 0 [Elem ''svg'' [''dark''] [] [] []]] @ [mount_after 2 [Elem ''svg'' [''dark''] [] [] []]]). rendered m"
  by code_simp
lemma one_unreadable_7: "querySelectorAll sel_mermaid (mount_after 1 [error_graphic]) = []" by code_simp

theorem batch_outcome_decides_enhancements_witness:
  "doc (renderMermaidDiagrams_after_run strict_env 0 (renderMermaidDiagrams_after_delay strict_env 0 one_unreadable))
     = page_of [mount_after 0 [Elem ''svg'' [''dark''] [] [] []],
                mount_after 1 [error_graphic],
                mount_after 2 [Elem ''svg'' [''dark''] [] [] []]]
   \<and> passes (renderMermaidDiagrams_after_run strict_env 0 (renderMermaidDiagrams_after_delay strict_env 0 one_unreadable)) = []
   \<and> length (qsa_incl sel_container (doc (renderMermaidDiagrams_after_run lenient_env 0
        (renderMermaidDiagrams_after_delay lenient_env 0 one_unreadable)))) = 3
   \<and> length (querySelectorAll sel_container (enhance lenient_env False (mount_after 1 [error_graphic]))) = 1"
proof -
  let ?d1 = "page_of [mount_after 0 [Elem ''svg'' [''dark''] [] [] []],
                mount_after 1 [error_graphic],
                mount_after 2 [Elem ''svg'' [''dark''] [] [] []]]"
  note rejected = batch_outcome_decides_enhancements [OF one_unreadable_1 one_unreadable_2
      one_unreadable_3 one_unreadable_5 one_unreadable_6 one_unreadable_7, unfolded Let_def]
  note resolved = batch_outcome_decides_enhancements [OF one_unreadable_1 one_unreadable_2
      one_unreadable_4 one_unreadable_5 one_unreadable_6 one_unreadable_7, unfolded Let_def]
  from rejected have a: "doc (renderMermaidDiagrams_after_run strict_env 0
        (renderMermaidDiagrams_after_delay strict_env 0 one_unreadable)) = ?d1
      \<and> passes (renderMermaidDiagrams_after_run strict_env 0
        (renderMermaidDiagrams_after_delay strict_env 0 one_unreadable))
        = take 0 (passes one_unreadable) @ drop (Suc 0) (passes one_unreadable)"
    by blast
  from resolved have b: "length (qsa_incl sel_container (doc (renderMermaidDiagrams_after_run lenient_env 0
        (renderMermaidDiagrams_after_delay lenient_env 0 one_unreadable))))
        = length (qsa_incl sel_container ?d1)
          + (length [mount_after 0 [Elem ''svg'' [''dark''] [] [] []]]
             + length [mount_after 2 [Elem ''svg'' [''dark''] [] [] []]]
             + length (querySelectorAll sel_svg (mount_after 1 [error_graphic])))
      \<and> length (querySelectorAll sel_container (enhance lenient_env False (mount_after 1 [error_graphic])))
        = length (querySelectorAll sel_container (mount_after 1 [error_graphic]))
          + length (querySelectorAll sel_svg (mount_after 1 [error_graphic]))"
    by blast
  from a b show ?thesis by code_simp
qed

text \<open>
  C2, as the claim states it, fails. Page: three diagram blocks, the second one malformed, and
  an engine that rejects a batch with a source it cannot read. The engine has rendered the two
  valid diagrams and left its error graphic in the malformed element, but the rejection takes the
  pass to its \<^verbatim>\<open>catch\<close>: the exception has left the batch call, the console gets the
  rendering error, and no mount element gets a viewport container, the two valid ones included.
\<close>

theorem rejected_batch_leaves_valid_diagrams_bare:
  "snd (mermaid_run strict_env (engine_config one_unreadable)
          (qsa_incl sel_mermaid (doc one_unreadable)) (doc one_unreadable)) = False
   \<and> map rendered (qsa_incl sel_mermaid (doc (complete_pass strict_env one_unreadable)))
       = [True, False, True]
   \<and> map (\<lambda>m. length (querySelectorAll sel_container m))
        (qsa_incl sel_mermaid (doc (complete_pass strict_env one_unreadable))) = [0, 0, 0]
   \<and> qsa_incl sel_container (doc (complete_pass strict_env one_unreadable)) = []
   \<and> console (complete_pass strict_env one_unreadable)
       = [LogStarting, LogFound 3, LogBlock 0 ''graph TD'', LogBlock 1 ''oops'', LogBlock 2 ''graph LR'',
          LogRenderingTheme ''dark'', LogRendering 3, ErrRenderingFailed]"
  by code_simp

text \<open>
  C4. A pass whose batch call rejects: the \<^verbatim>\<open>catch\<close> writes one console error, the
  document stays as the engine left it (no viewport container is added), and the invocation returns
  (it leaves the passes in flight; the observer stays installed). A theme change after that starts
  a new pass as any other would: teardown, engine configuration for the new theme, and after its
  delay a batch call over all \<^verbatim>\<open>.mermaid\<close> elements of the document of that time.
\<close>

theorem rejected_batch_call:
  assumes i: "i < length (passes s)" and del: "passes s ! i = AwaitingDelay" and obs: "observing s"
    and rej: "snd (mermaid_run E (engine_config s) (qsa_incl sel_mermaid (doc s)) (doc s)) = False"
  shows "let s1 = renderMermaidDiagrams_after_delay E i s;
             s2 = renderMermaidDiagrams_after_run E i s1;
             s3 = theme_change E v s2;
             s4 = renderMermaidDiagrams_after_delay E (length (passes s2)) s3
         in console s2 = console s @ [LogRendering (length (qsa_incl sel_mermaid (doc s))), ErrRenderingFailed]
          \<and> doc s2 = doc s1
          \<and> passes s2 = take i (passes s) @ drop (Suc i) (passes s)
          \<and> observing s2
          \<and> in_flight s3 = Suc (in_flight s2)
          \<and> doc s3 = teardown (mermaidSources s) (doc s2)
          \<and> calls s4 = calls s2
               @ [Initialize \<lparr>startOnLoad = False, theme = getCurrentTheme v, logLevel = ''error''\<rparr>,
                  Run (qsa_incl sel_mermaid (doc s3))]"
proof -
  obtain d1 where run: "mermaid_run E (engine_config s) (qsa_incl sel_mermaid (doc s)) (doc s) = (d1, False)"
    using rej by (cases "mermaid_run E (engine_config s) (qsa_incl sel_mermaid (doc s)) (doc s)") simp
  define s1 where "s1 = renderMermaidDiagrams_after_delay E i s"
  define s2 where "s2 = renderMermaidDiagrams_after_run E i s1"
  define s2' where "s2' = s2\<lparr>data_theme := v, console := console s2 @ [LogThemeChanged]\<rparr>"
  have s1: "s1 = s\<lparr>console := console s @ [LogRendering (length (qsa_incl sel_mermaid (doc s)))],
       calls := calls s @ [Run (qsa_incl sel_mermaid (doc s))],
       doc := d1, passes := (passes s)[i := AwaitingRun False]\<rparr>"
    unfolding s1_def using i del run by (rule after_delay_state)
  have s2: "s2 = s\<lparr>console := console s @ [LogRendering (length (qsa_incl sel_mermaid (doc s))), ErrRenderingFailed],
       calls := calls s @ [Run (qsa_incl sel_mermaid (doc s))],
       doc := d1, passes := take i (passes s) @ drop (Suc i) (passes s)\<rparr>"
    using i by (simp add: s2_def s1 renderMermaidDiagrams_after_run_def Let_def)
  have obs2: "observing s2" using obs by (simp add: s2)
  have s3: "theme_change E v s2 = renderMermaidDiagrams_start E s2'"
    using obs2 by (simp add: theme_change_def s2'_def)
  have facts2: "console s2 = console s @ [LogRendering (length (qsa_incl sel_mermaid (doc s))), ErrRenderingFailed]"
    "doc s2 = doc s1" "passes s2 = take i (passes s) @ drop (Suc i) (passes s)"
    by (simp_all add: s2 s1)
  have flight: "in_flight (theme_change E v s2) = Suc (in_flight s2)"
    by (simp add: s3 in_flight_def passes_start s2'_def)
  have doc3: "doc (theme_change E v s2) = teardown (mermaidSources s) (doc s2)"
    by (simp add: s3 doc_start s2'_def) (simp add: s2)
  have "calls (renderMermaidDiagrams_after_delay E (length (passes s2')) (renderMermaidDiagrams_start E s2'))
     = calls s2' @ [Initialize \<lparr>startOnLoad = False, theme = getCurrentTheme (data_theme s2'), logLevel = ''error''\<rparr>,
                 Run (qsa_incl sel_mermaid (teardown (mermaidSources s2') (doc s2')))]"
    by (rule start_then_delay)
  then have calls4: "calls (renderMermaidDiagrams_after_delay E (length (passes s2)) (theme_change E v s2))
     = calls s2 @ [Initialize \<lparr>startOnLoad = False, theme = getCurrentTheme v, logLevel = ''error''\<rparr>,
                 Run (qsa_incl sel_mermaid (doc (theme_change E v s2)))]"
    by (simp add: s3 doc_start) (simp add: s2'_def)
  show ?thesis
    unfolding Let_def s1_def [symmetric] s2_def [symmetric]
    using facts2 obs2 flight doc3 calls4 by simp
qed

lemma one_block_rejected_1: "0 < length (passes one_block_rejected)" by code_simp
lemma one_block_rejected_2: "passes one_block_rejected ! 0 = AwaitingDelay" by code_simp
lemma one_block_rejected_3: "observing one_block_rejected" by code_simp
lemma one_block_rejected_4: "snd (mermaid_run rejecting_env (engine_config one_block_rejected) (qsa_incl sel_mermaid (doc one_block_rejected)) (doc one_block_rejected)) = False"
  by code_simp

theorem rejected_batch_call_witness:
  "console (renderMermaidDiagrams_after_run rejecting_env 0 (renderMermaidDiagrams_after_delay rejecting_env 0 one_block_rejected))
     = [LogStarting, LogFound 1, LogBlock 0 ''graph TD'', LogRenderingTheme ''dark'', LogRendering 1, ErrRenderingFailed]
   \<and> in_flight (theme_change rejecting_env (Some ''light'')
        (renderMermaidDiagrams_after_run rejecting_env 0 (renderMermaidDiagrams_after_delay rejecting_env 0 one_block_rejected))) = 1"
  using rejected_batch_call [OF one_block_rejected_1 one_block_rejected_2 one_block_rejected_3 one_block_rejected_4, of "Some ''light''"]
  apply (simp add: Let_def)
  apply code_simp
  done

text \<open>
  C7. Whether \<^verbatim>\<open>svgPanZoom\<close> throws changes nothing in the document: the loop leaves
  the same document as with a library that never throws, with one more container for every graphic
  below a mount element. Each call of \<^verbatim>\<open>addZoomControls\<close> yields the sized container
  with the graphic and the hint in it and writes one console line: the zoom error when the library
  throws on that graphic, the success line with its index otherwise. A pass whose batch call
  resolved goes through all graphics and returns.
\<close>

theorem pan_zoom_failure_is_local:
  "enhance (E\<lparr>svgPanZoom_throws := f\<rparr>) b d = enhance E b d
   \<and> length (qsa_incl sel_container (enhance E False d))
       = length (qsa_incl sel_container d) + length (qsa_mermaid_svg False d)
   \<and> length (zoom_lines E svgs) = length svgs
   \<and> (\<forall>j < length svgs. zoom_lines E svgs ! j =
         (if svgPanZoom_throws E (full_size (svgs ! j)) then ErrZoomFailed
          else LogZoomEnabled j (svgHeight E (svgs ! j))))
   \<and> sel_container (fst (addZoomControls E g index))
   \<and> children (fst (addZoomControls E g index)) = [full_size g, hint]
   \<and> map_of (style_of (fst (addZoomControls E g index))) ''height'' = Some (show_nat (svgHeight E g) @ ''px'')
   \<and> (svgPanZoom_throws E (full_size g) \<longrightarrow> snd (addZoomControls E g index) = ErrZoomFailed)
   \<and> (i < length (passes s) \<and> passes s ! i = AwaitingRun True \<longrightarrow>
        doc (renderMermaidDiagrams_after_run E i s) = enhance E False (doc s)
        \<and> console (renderMermaidDiagrams_after_run E i s)
            = console s @ [LogRenderingComplete] @ zoom_lines E (qsa_mermaid_svg False (doc s))
        \<and> passes (renderMermaidDiagrams_after_run E i s) = take i (passes s) @ drop (Suc i) (passes s))"
proof -
  have lines: "\<forall>j < length svgs. zoom_lines E svgs ! j =
         (if svgPanZoom_throws E (full_size (svgs ! j)) then ErrZoomFailed
          else LogZoomEnabled j (svgHeight E (svgs ! j)))"
    by (simp add: zoom_lines_nth zoom_line_def)
  have container: "sel_container (fst (addZoomControls E g index))
      \<and> children (fst (addZoomControls E g index)) = [full_size g, hint]
      \<and> map_of (style_of (fst (addZoomControls E g index))) ''height'' = Some (show_nat (svgHeight E g) @ ''px'')
      \<and> (svgPanZoom_throws E (full_size g) \<longrightarrow> snd (addZoomControls E g index) = ErrZoomFailed)"
    by (simp add: addZoomControls_def wrap_graphic_def with_own_children sel_container_def
        container_style_def zoom_line_def)
  have pass: "i < length (passes s) \<and> passes s ! i = AwaitingRun True \<longrightarrow>
        doc (renderMermaidDiagrams_after_run E i s) = enhance E False (doc s)
        \<and> console (renderMermaidDiagrams_after_run E i s)
            = console s @ [LogRenderingComplete] @ zoom_lines E (qsa_mermaid_svg False (doc s))
        \<and> passes (renderMermaidDiagrams_after_run E i s) = take i (passes s) @ drop (Suc i) (passes s)"
    by (simp add: renderMermaidDiagrams_after_run_def Let_def)
  have same: "enhance (E\<lparr>svgPanZoom_throws := f\<rparr>) b d = enhance E b d"
    by (rule enhance_throws_irrelevant)
  have count: "length (qsa_incl sel_container (enhance E False d))
       = length (qsa_incl sel_container d) + length (qsa_mermaid_svg False d)"
    by (rule containers_enhance)
  have len: "length (zoom_lines E svgs) = length svgs"
    by (rule zoom_lines_length)
  show ?thesis
    using same count len lines container pass by blast
qed

theorem pan_zoom_failure_is_local_witness:
  "console (renderMermaidDiagrams_after_run fragile_env 0 two_graphics)
     = [LogRenderingComplete, ErrZoomFailed, LogZoomEnabled 1 300]
   \<and> length (qsa_incl sel_container (doc (renderMermaidDiagrams_after_run fragile_env 0 two_graphics))) = 2
   \<and> snd (addZoomControls fragile_env (Elem ''svg'' [''default''] [] [] []) 0) = ErrZoomFailed
   \<and> children (fst (addZoomControls fragile_env (Elem ''svg'' [''default''] [] [] []) 0))
       = [Elem ''svg'' [''default''] [] [(''width'', ''100%''), (''height'', ''100%'')] [], hint]"
proof -
  let ?g = "Elem ''svg'' [''default''] [] [] []"
  have h: "0 < length (passes two_graphics) \<and> passes two_graphics ! 0 = AwaitingRun True"
    by code_simp
  have t: "svgPanZoom_throws fragile_env (full_size ?g)"
    by code_simp
  have "doc (renderMermaidDiagrams_after_run fragile_env 0 two_graphics) = enhance fragile_env False (doc two_graphics)
      \<and> console (renderMermaidDiagrams_after_run fragile_env 0 two_graphics)
          = console two_graphics @ [LogRenderingComplete]
            @ zoom_lines fragile_env (qsa_mermaid_svg False (doc two_graphics))
      \<and> snd (addZoomControls fragile_env ?g 0) = ErrZoomFailed
      \<and> children (fst (addZoomControls fragile_env ?g 0)) = [full_size ?g, hint]"
    using pan_zoom_failure_is_local [where E = fragile_env and i = 0 and s = two_graphics
        and g = ?g and index = 0] h t
    by blast
  then show ?thesis by code_simp
qed

section \<open>Teardown\<close>

text \<open>
  C10. A mount element whose cached source is the empty string: the callback of the reset loop
  leaves it as it is, content and \<^verbatim>\<open>data-processed\<close> included. In a document where
  no mount element or container has a mount element below it, the element is still in the document,
  unchanged, after the teardown of a pass started in any state, and it is among the elements of
  that pass's batch call as it was: nothing has reset it for the engine to render again.
\<close>

theorem empty_source_mount_skipped:
  assumes src: "source_at (mermaidSources s) (block_index m) = Some []"
    and m: "m \<in> set (qsa_incl sel_mermaid (doc s))"
    and flat: "\<forall>x \<in> set (qsa_incl sel_mermaid (doc s)). querySelectorAll sel_mermaid x = []"
    and cont: "\<forall>c \<in> set (qsa_incl sel_container (doc s)). querySelectorAll sel_mermaid c = []"
  shows "reset_mount (mermaidSources s) m = m
    \<and> m \<in> set (qsa_incl sel_mermaid (doc (renderMermaidDiagrams_start E s)))
    \<and> last (calls (renderMermaidDiagrams_after_delay E (length (passes s)) (renderMermaidDiagrams_start E s)))
        = Run (qsa_incl sel_mermaid (doc (renderMermaidDiagrams_start E s)))"
proof -
  have skip: "\<not> reset_applies (mermaidSources s) m"
    using src by (simp add: reset_applies_def)
  have "unwrap_containers (mermaidSources s) (doc s) = doc s"
    using cont by (intro unwrap_containers_id) simp
  moreover have "m \<in> set (qsa_incl sel_mermaid (reset_mounts (mermaidSources s) (doc s)))"
    using m skip flat by (intro reset_mounts_keeps) simp_all
  ultimately have "m \<in> set (qsa_incl sel_mermaid (doc (renderMermaidDiagrams_start E s)))"
    by (simp add: doc_start teardown_def)
  moreover have "reset_mount (mermaidSources s) m = m"
    using skip by (simp add: reset_mount_def)
  moreover have "last (calls (renderMermaidDiagrams_after_delay E (length (passes s)) (renderMermaidDiagrams_start E s)))
        = Run (qsa_incl sel_mermaid (doc (renderMermaidDiagrams_start E s)))"
    by (simp add: renderMermaidDiagrams_start_def renderMermaidDiagrams_after_delay_def Let_def
        nth_append split: prod.splits)
  ultimately show ?thesis by simp
qed

theorem empty_source_mount_skipped_witness:
  "reset_mount [[]] (mount_after 0 [Text ''Syntax error in text''])
     = mount_after 0 [Text ''Syntax error in text'']
   \<and> qsa_incl sel_mermaid (doc (renderMermaidDiagrams_start sample_env empty_mount_state))
       = [mount_after 0 [Text ''Syntax error in text'']]"
proof -
  let ?m = "mount_after 0 [Text ''Syntax error in text'']"
  have 1: "source_at (mermaidSources empty_mount_state) (block_index ?m) = Some []"
    by code_simp
  have 2: "?m \<in> set (qsa_incl sel_mermaid (doc empty_mount_state))"
    by code_simp
  have 3: "\<forall>x \<in> set (qsa_incl sel_mermaid (doc empty_mount_state)). querySelectorAll sel_mermaid x = []"
    by code_simp
  have 4: "\<forall>c \<in> set (qsa_incl sel_container (doc empty_mount_state)). querySelectorAll sel_mermaid c = []"
    by code_simp
  have 5: "mermaidSources empty_mount_state = [[]]"
    by code_simp
  have 6: "length (qsa_incl sel_mermaid (doc (renderMermaidDiagrams_start sample_env empty_mount_state))) = 1"
    by code_simp
  from empty_source_mount_skipped [OF 1 2 3 4, of sample_env]
  have "reset_mount [[]] ?m = ?m"
    and "?m \<in> set (qsa_incl sel_mermaid (doc (renderMermaidDiagrams_start sample_env empty_mount_state)))"
    by (simp_all add: 5)
  with 6 show ?thesis
    by (cases "qsa_incl sel_mermaid (doc (renderMermaidDiagrams_start sample_env empty_mount_state))") simp_all
qed

section \<open>Conversion\<close>

text \<open>
  C9, as the code has it. Take a page whose blocks with a \<^verbatim>\<open>code\<close> child have targets
  that are apart, a listed block at position \<open>j\<close> without a \<^verbatim>\<open>code\<close> child that lies
  inside no target, and a later listed block at position \<open>k\<close> with a \<^verbatim>\<open>code\<close> child.
  After the conversion loop, the sources recorded are those of the blocks with a
  \<^verbatim>\<open>code\<close> child and no other; the block without one is in the document where it
  was, unchanged; where the target of the later block was, the document has a mount element whose
  \<^verbatim>\<open>data-block-index\<close> is \<open>k\<close>, the position among all listed blocks, which
  \<^verbatim>\<open>parseInt\<close> reads back as that number; and the source of that block is stored at
  position \<open>p\<close>, the number of blocks with a \<^verbatim>\<open>code\<close> child before it, which is
  less than \<open>k\<close>.
\<close>

theorem codeless_block_shifts_indices:
  assumes bs: "qsa_paths sel_pre_mermaid [] d0 = bs"
    and own: "apart (targets E d0 bs)"
    and jk: "j < k" "k < length bs"
    and x: "source_of E (bs ! j) = None"
    and out: "\<forall>t \<in> set (targets E d0 bs). \<not> prefix t (fst (bs ! j))"
    and b: "source_of E (bs ! k) = Some content"
  shows "let c = convert_blocks E (fresh_page d0 th);
             p = length (List.map_filter (source_of E) (take k bs))
         in c_sources c = List.map_filter (source_of E) bs
          \<and> node_at (c_doc c) (fst (bs ! j)) = Some (snd (bs ! j))
          \<and> node_at (c_doc c) (target d0 (bs ! k)) = Some (mount_div content k)
          \<and> getAttribute (mount_div content k) ''data-block-index'' = Some (show_nat k)
          \<and> block_index (mount_div content k) = Some (int k)
          \<and> p < k \<and> c_sources c ! p = content"
proof -
  let ?start = "\<lparr>c_doc = d0, c_sources = [], c_console = [LogStarting, LogFound (length bs)],
      c_replaced = []\<rparr>"
  let ?fin = "forEach (convert_block E d0) bs 0 ?start"
  let ?p = "length (List.map_filter (source_of E) (take k bs))"
  have c: "convert_blocks E (fresh_page d0 th) = ?fin"
    by (simp add: convert_blocks_def fresh_page_def bs Let_def)
  have listed: "node_at d0 (fst (bs ! i)) = Some (snd (bs ! i))" if "i < length bs" for i
    using that bs by (intro listed_node_at [of _ sel_pre_mermaid]) simp
  have src: "c_sources ?fin = List.map_filter (source_of E) bs"
    by (simp add: forEach_sources)
  have sep: "\<forall>t \<in> set (targets E d0 bs). \<forall>r \<in> set (c_replaced ?start). \<not> prefix t r \<and> \<not> prefix r t"
    by simp
  have away: "\<forall>t \<in> set (targets E d0 bs). \<not> prefix t (fst (bs ! j)) \<and> \<not> prefix (fst (bs ! j)) t"
  proof
    fix t assume t: "t \<in> set (targets E d0 bs)"
    then obtain b' where b': "b' \<in> set bs" "source_of E b' \<noteq> None" "t = target d0 b'"
      by (auto simp: targets_def)
    then obtain i content' where i: "i < length bs" "b' = bs ! i" "source_of E b' = Some content'"
      by (auto simp: in_set_conv_nth)
    have "\<not> prefix (fst (bs ! j)) (fst b')"
      using listed [of j] x listed [of i] i jk by (intro codeless_holds_no_block [of d0 _ E]) simp_all
    moreover have "prefix t (fst b')" unfolding b'(3) by (rule target_prefix)
    ultimately have "\<not> prefix (fst (bs ! j)) t" using prefix_order.trans by blast
    with out t show "\<not> prefix t (fst (bs ! j)) \<and> \<not> prefix (fst (bs ! j)) t" by simp
  qed
  have "node_at (c_doc ?fin) (fst (bs ! j)) = node_at (c_doc ?start) (fst (bs ! j))"
    using own sep away by (rule forEach_frame)
  then have stays: "node_at (c_doc ?fin) (fst (bs ! j)) = Some (snd (bs ! j))"
    using listed [of j] jk by simp
  have "node_at d0 (target d0 (bs ! k)) \<noteq> None"
    using listed [OF jk(2)] by (intro target_exists) simp
  then have "node_at (c_doc ?start) (target d0 (bs ! k)) \<noteq> None" by simp
  with own sep jk(2) b have "node_at (c_doc ?fin) (target d0 (bs ! k)) = Some (mount_div content (0 + k))"
    by (rule forEach_mount)
  then have mount: "node_at (c_doc ?fin) (target d0 (bs ! k)) = Some (mount_div content k)" by simp
  have "length (List.map_filter (source_of E) (take k bs)) < length (take k bs)"
    using jk x by (intro map_filter_skips [of j]) simp_all
  then have lt: "?p < k" using jk(2) by simp
  have "take k bs @ bs ! k # drop (Suc k) bs = bs"
    using jk(2) by (simp add: Cons_nth_drop_Suc)
  then have "List.map_filter (source_of E) bs
      = List.map_filter (source_of E) (take k bs @ bs ! k # drop (Suc k) bs)"
    by simp
  also have "\<dots> = List.map_filter (source_of E) (take k bs)
      @ content # List.map_filter (source_of E) (drop (Suc k) bs)"
    using b by (simp add: map_filter_append List.map_filter_simps)
  finally have at: "c_sources ?fin ! ?p = content" by (simp add: src)
  have attr: "getAttribute (mount_div content k) ''data-block-index'' = Some (show_nat k)"
    by (simp add: mount_div_def)
  show ?thesis
    unfolding Let_def c
    using src stays mount attr block_index_mount_div [of content k] lt at by blast
qed

lemma codeless_page_1: "qsa_paths sel_pre_mermaid [] codeless_page
   = [([0, 0], codeless_pre), ([0, 1, 0], code_pre ''graph TD''), ([0, 2, 0], code_pre ''graph LR'')]"
  by code_simp
lemma codeless_page_2: "apart (targets sample_env codeless_page
     [([0, 0], codeless_pre), ([0, 1, 0], code_pre ''graph TD''), ([0, 2, 0], code_pre ''graph LR'')])"
  by code_simp
lemma codeless_page_3: "source_of sample_env
     ([([0, 0], codeless_pre), ([0, 1, 0], code_pre ''graph TD''), ([0, 2, 0], code_pre ''graph LR'')] ! 0) = None"
  by code_simp
lemma codeless_page_4: "\<forall>t \<in> set (targets sample_env codeless_page
     [([0, 0], codeless_pre), ([0, 1, 0], code_pre ''graph TD''), ([0, 2, 0], code_pre ''graph LR'')]).
     \<not> prefix t (fst ([([0, 0], codeless_pre), ([0, 1, 0], code_pre ''graph TD''), ([0, 2, 0], code_pre ''graph LR'')] ! 0))"
  by code_simp
lemma codeless_page_5: "source_of sample_env
     ([([0, 0], codeless_pre), ([0, 1, 0], code_pre ''graph TD''), ([0, 2, 0], code_pre ''graph LR'')] ! 2)
     = Some ''graph LR''"
  by code_simp

theorem codeless_block_shifts_indices_witness:
  "node_at (c_doc (convert_blocks sample_env (fresh_page codeless_page None))) [0, 0] = Some codeless_pre
   \<and> node_at (c_doc (convert_blocks sample_env (fresh_page codeless_page None))) [0, 2]
       = Some (mount_div ''graph LR'' 2)
   \<and> block_index (mount_div ''graph LR'' 2) = Some 2
   \<and> c_sources (convert_blocks sample_env (fresh_page codeless_page None)) = [''graph TD'', ''graph LR'']
   \<and> c_sources (convert_blocks sample_env (fresh_page codeless_page None)) ! 1 = ''graph LR''"
proof -
  let ?bs = "[([0, 0], codeless_pre), ([0, 1, 0], code_pre ''graph TD''), ([0, 2, 0], code_pre ''graph LR'')]
      :: (path \<times> node) list"
  let ?c = "convert_blocks sample_env (fresh_page codeless_page None)"
  have jk: "(0::nat) < 2" "2 < length ?bs" by simp_all
  note t = codeless_block_shifts_indices [OF codeless_page_1 codeless_page_2 jk codeless_page_3
      codeless_page_4 codeless_page_5, of None, unfolded Let_def]
  from t have "c_sources ?c = List.map_filter (source_of sample_env) ?bs
     \<and> node_at (c_doc ?c) (fst (?bs ! 0)) = Some (snd (?bs ! 0))
     \<and> node_at (c_doc ?c) (target codeless_page (?bs ! 2)) = Some (mount_div ''graph LR'' 2)
     \<and> block_index (mount_div ''graph LR'' 2) = Some (int 2)
     \<and> c_sources ?c ! length (List.map_filter (source_of sample_env) (take 2 ?bs)) = ''graph LR''"
    by (elim conjE) (intro conjI, assumption+)
  then show ?thesis by code_simp
qed

text \<open>
  C9, as the claim states it, fails. Page: one \<^verbatim>\<open>figure\<close> that holds a diagram-tagged
  \<^verbatim>\<open>pre\<close> without a \<^verbatim>\<open>code\<close> child and, after it, a diagram block with one.
  The conversion of the second block replaces the figure, and the first block leaves the
  document with it: no diagram-tagged block is left. And on a page where a figure holds two blocks
  with a \<^verbatim>\<open>code\<close> child, the first takes the figure with it, so the second has its
  source recorded and comes to no mount element: the document has one mount element for two
  sources.
\<close>

theorem codeless_block_removed_with_figure:
  "qsa_paths sel_pre_mermaid [] shared_figure_page
     = [([0, 0, 0], codeless_pre), ([0, 0, 1], code_pre ''graph TD'')]
   \<and> source_of sample_env ([0, 0, 0], codeless_pre) = None
   \<and> c_sources (convert_blocks sample_env (fresh_page shared_figure_page None)) = [''graph TD'']
   \<and> c_doc (convert_blocks sample_env (fresh_page shared_figure_page None))
       = page_of [mount_div ''graph TD'' 1]
   \<and> qsa_incl sel_pre_mermaid (c_doc (convert_blocks sample_env (fresh_page shared_figure_page None))) = []
   \<and> c_sources (convert_blocks sample_env (fresh_page crowded_figure_page None))
       = [''graph TD'', ''graph LR'']
   \<and> c_doc (convert_blocks sample_env (fresh_page crowded_figure_page None))
       = page_of [codeless_pre, mount_div ''graph TD'' 1]"
  by code_simp

text \<open>
  C3 fails on the code. Page: a diagram-tagged \<^verbatim>\<open>pre\<close> without a \<^verbatim>\<open>code\<close> child,
  then two diagram blocks. After the load handler the source list has two entries and the two
  mount elements carry the indices 1 and 2: the second index resolves to nothing, and the first
  resolves to the other diagram's source, which the teardown of the initial pass has already
  written into the first mount element.
\<close>

theorem index_beyond_sources:
  "mermaidSources codeless_loaded = [''graph TD'', ''graph LR'']
   \<and> map block_index (qsa_incl sel_mermaid (doc codeless_loaded)) = [Some 1, Some 2]
   \<and> map (\<lambda>m. source_at (mermaidSources codeless_loaded) (block_index m))
        (qsa_incl sel_mermaid (doc codeless_loaded)) = [Some ''graph LR'', None]
   \<and> map textContent (qsa_incl sel_mermaid (doc codeless_loaded)) = [''graph LR'', ''graph LR'']"
  by code_simp

text \<open>
  C8, as the code has it. On a page with no diagram-tagged block the source list stays empty and
  the conversion loop changes nothing; the load handler still starts a render pass (teardown,
  engine configuration, one pass in flight) and installs the observer. If the page has no
  \<^verbatim>\<open>.mermaid\<close> and no \<^verbatim>\<open>.mermaid-container\<close> element either, that teardown changes
  nothing, the batch call is made over an empty node list, and when the engine leaves the
  document alone on such a call, the document after the completed pass is the original page.
\<close>

theorem page_without_diagram_blocks:
  assumes "qsa_paths sel_pre_mermaid [] d = []"
  shows "let s = page_load E (fresh_page d th);
             cfg = \<lparr>startOnLoad = False, theme = getCurrentTheme th, logLevel = ''error''\<rparr>
         in mermaidSources s = []
          \<and> c_doc (convert_blocks E (fresh_page d th)) = d
          \<and> doc s = teardown [] d
          \<and> calls s = [Initialize cfg] \<and> passes s = [AwaitingDelay] \<and> observing s
          \<and> (qsa_incl sel_mermaid d = [] \<and> qsa_incl sel_container d = [] \<longrightarrow>
                doc s = d
                \<and> calls (renderMermaidDiagrams_after_delay E 0 s) = [Initialize cfg, Run []]
                \<and> (fst (mermaid_run E (Some cfg) [] d) = d \<longrightarrow> doc (complete_pass E s) = d))"
proof -
  let ?cfg = "\<lparr>startOnLoad = False, theme = getCurrentTheme th, logLevel = ''error''\<rparr>"
  have conv: "convert_blocks E (fresh_page d th)
      = \<lparr>c_doc = d, c_sources = [], c_console = [LogStarting, LogFound 0], c_replaced = []\<rparr>"
    using assms by (simp add: convert_blocks_def fresh_page_def Let_def)
  have s: "page_load E (fresh_page d th)
      = \<lparr>doc = teardown [] d, data_theme = th, mermaidSources = [], engine_config = Some ?cfg,
          passes = [AwaitingDelay],
          console = [LogStarting, LogFound 0, LogRenderingTheme (getCurrentTheme th)],
          calls = [Initialize ?cfg], observing = True\<rparr>"
    by (simp add: page_load_def conv renderMermaidDiagrams_start_def Let_def) (simp add: fresh_page_def)
  have quiet: "doc (complete_pass E (page_load E (fresh_page d th))) = d"
    if h: "qsa_incl sel_mermaid d = []" "qsa_incl sel_container d = []"
      "fst (mermaid_run E (Some ?cfg) [] d) = d"
  proof -
    have td: "teardown [] d = d" using h(1,2) by (rule teardown_id)
    obtain ok where run: "mermaid_run E (Some ?cfg) [] d = (d, ok)"
      using h(3) by (cases "mermaid_run E (Some ?cfg) [] d") simp
    show ?thesis
      by (cases ok)
        (simp_all add: s td h(1) run complete_pass_def renderMermaidDiagrams_after_delay_def
          renderMermaidDiagrams_after_run_def Let_def enhance_without_mounts)
  qed
  have delay: "calls (renderMermaidDiagrams_after_delay E 0 (page_load E (fresh_page d th)))
      = [Initialize ?cfg, Run []]"
    if "qsa_incl sel_mermaid d = []" "qsa_incl sel_container d = []"
    using that
    by (simp add: s teardown_id renderMermaidDiagrams_after_delay_def Let_def split: prod.splits)
  show ?thesis
    unfolding Let_def
    using quiet delay by (simp add: s conv teardown_id)
qed

lemma plain_page_1: "qsa_paths sel_pre_mermaid [] plain_page = []" by code_simp
lemma plain_page_2: "qsa_incl sel_mermaid plain_page = [] \<and> qsa_incl sel_container plain_page = []" by code_simp
lemma plain_page_3: "fst (mermaid_run sample_env (Some \<lparr>startOnLoad = False, theme = getCurrentTheme None, logLevel = ''error''\<rparr>) [] plain_page) = plain_page"
  by code_simp

theorem page_without_diagram_blocks_witness:
  "mermaidSources (page_load sample_env (fresh_page plain_page None)) = []
   \<and> doc (complete_pass sample_env (page_load sample_env (fresh_page plain_page None))) = plain_page"
  using page_without_diagram_blocks [OF plain_page_1, of sample_env None] plain_page_2 plain_page_3
  by (simp add: Let_def)

text \<open>
  C8, as the claim states it, fails. On a page with no diagram-tagged block the render orchestrator
  still works: it configures the engine and makes a batch call, and the observer is installed.
  And on such a page that has a hand-written \<^verbatim>\<open>.mermaid\<close> element, the pass renders it
  and wraps the graphic: the DOM gets a viewport container the page did not have.
\<close>

theorem orchestrator_runs_without_blocks:
  "qsa_paths sel_pre_mermaid [] plain_page = []
   \<and> calls (complete_pass sample_env (page_load sample_env (fresh_page plain_page None)))
      = [Initialize \<lparr>startOnLoad = False, theme = ''dark'', logLevel = ''error''\<rparr>, Run []]
   \<and> observing (page_load sample_env (fresh_page plain_page None))
   \<and> qsa_paths sel_pre_mermaid [] handwritten_page = []
   \<and> length (qsa_incl sel_container
        (doc (complete_pass sample_env (page_load sample_env (fresh_page handwritten_page None))))) = 1
   \<and> qsa_incl sel_container handwritten_page = []"
  by code_simp

section \<open>Theme toggles\<close>

text \<open>
  C5, as the code has it. On a page where the engine, for either palette, renders every mount
  element into one graphic, and every mount element's index resolves to a non-empty cached source
  (\<open>engine_renders\<close>), start from the state the load handler leaves (the initial pass is at its
  delay) and let that pass complete. Then after any number of theme toggles \<open>vs\<close>, each followed
  by its completed pass, no pass is in flight, every mount element holds exactly one viewport
  container with one graphic in it, and no mount element has been lost; and the teardown of one
  more toggle gives back the document of raw mount elements: each one's content is its
  cached source text again, and no viewport container is left.
\<close>

theorem theme_toggles_keep_one_container:
  assumes n: "engine_renders E srcs d0 ''neutral''" and d: "engine_renders E srcs d0 ''dark''"
    and s0: "passes s0 = [AwaitingDelay]" "doc s0 = d0" "mermaidSources s0 = srcs" "observing s0"
      "engine_config s0 = Some \<lparr>startOnLoad = False, theme = getCurrentTheme (data_theme s0), logLevel = ''error''\<rparr>"
  shows "let sN = toggles E vs (complete_pass E s0) in
      passes sN = []
      \<and> list_all enhanced (qsa_incl sel_mermaid (doc sN))
      \<and> length (qsa_incl sel_mermaid (doc sN)) = length (qsa_incl sel_mermaid d0)
      \<and> doc (theme_change E v sN) = d0
      \<and> list_all (raw srcs) (qsa_incl sel_mermaid d0)
      \<and> qsa_incl sel_container d0 = []"
proof -
  let ?th0 = "getCurrentTheme (data_theme s0)"
  have "engine_renders E srcs d0 ?th0" using getCurrentTheme_cases [of "data_theme s0"] n d by auto
  then obtain r0 where run0: "mermaid_run E (Some (pass_config ?th0)) (qsa_incl sel_mermaid d0) d0 = (r0, True)"
    by (rule engine_rendersD)
  have cfg0: "engine_config s0 = Some (pass_config ?th0)" using s0(5) by (simp add: pass_config_def)
  note f = complete_pass_fields [OF s0(1) s0(2) cfg0 run0]
  have "settled E srcs d0 (complete_pass E s0)"
    unfolding settled_def
    using f s0(3,4) getCurrentTheme_cases [of "data_theme s0"] run0
    by (intro conjI exI [of _ ?th0]) simp_all
  with n d have fin: "settled E srcs d0 (toggles E vs (complete_pass E s0))"
    by (rule settled_toggles)
  let ?sN = "toggles E vs (complete_pass E s0)"
  from fin obtain th where th: "th = ''neutral'' \<or> th = ''dark''"
    and doc: "doc ?sN = enhance E False (fst (mermaid_run E (Some (pass_config th)) (qsa_incl sel_mermaid d0) d0))"
    and ps: "passes ?sN = []"
    by (auto simp: settled_def)
  from th n d have "engine_renders E srcs d0 th" by auto
  then obtain r where run: "mermaid_run E (Some (pass_config th)) (qsa_incl sel_mermaid d0) d0 = (r, True)"
    and r0: "reset_mounts srcs r = d0" "qsa_incl sel_container r = []"
      "\<forall>m \<in> set (qsa_incl sel_mermaid r). rendered m \<and> reset_applies srcs m"
    by (rule engine_rendersD)
  from r0 have r: "reset_mounts srcs r = d0" "qsa_incl sel_container r = []"
      "\<And>m. m \<in> set (qsa_incl sel_mermaid r) \<Longrightarrow> rendered m \<and> reset_applies srcs m"
    by simp_all
  have docr: "doc ?sN = enhance E False r" by (simp add: doc run)
  note e = enhanced_after_pass [OF r]
  have restored: "doc (theme_change E v ?sN) = d0"
    using n d fin by (rule settled_toggle(1))
  show ?thesis
    unfolding Let_def docr [symmetric]
    using ps e restored by (simp add: docr)
qed

lemma two_blocks_1: "engine_renders sample_env (mermaidSources two_blocks) (doc two_blocks) ''neutral''" by code_simp
lemma two_blocks_2: "engine_renders sample_env (mermaidSources two_blocks) (doc two_blocks) ''dark''" by code_simp
lemma two_blocks_3: "passes two_blocks = [AwaitingDelay]" by code_simp
lemma two_blocks_4: "observing two_blocks" by code_simp
lemma two_blocks_5: "engine_config two_blocks
  = Some \<lparr>startOnLoad = False, theme = getCurrentTheme (data_theme two_blocks), logLevel = ''error''\<rparr>" by code_simp
lemma two_blocks_6: "length (qsa_incl sel_mermaid (doc two_blocks)) = 2" by code_simp

theorem theme_toggles_keep_one_container_witness:
  "passes (toggles sample_env [Some ''light'', Some ''dark''] (complete_pass sample_env two_blocks)) = []
   \<and> list_all enhanced (qsa_incl sel_mermaid
        (doc (toggles sample_env [Some ''light'', Some ''dark''] (complete_pass sample_env two_blocks))))
   \<and> length (qsa_incl sel_mermaid
        (doc (toggles sample_env [Some ''light'', Some ''dark''] (complete_pass sample_env two_blocks)))) = 2
   \<and> doc (theme_change sample_env (Some ''light'')
        (toggles sample_env [Some ''light'', Some ''dark''] (complete_pass sample_env two_blocks)))
      = doc two_blocks"
  using theme_toggles_keep_one_container [OF two_blocks_1 two_blocks_2 two_blocks_3 refl refl two_blocks_4 two_blocks_5, of "[Some ''light'', Some ''dark'']" "Some ''light''"] two_blocks_6
  by (simp add: Let_def)

text \<open>
  C5, as the claim states it, fails. With no toggle at all, the mount element of a malformed
  source has no viewport container after the completed initial pass (the three mount elements
  hold 1, 0 and 1 containers). And when a toggle arrives while the initial pass is still at its
  delay, the two passes overlap, and after both have completed the one mount element holds two
  containers, one wrapped in the other.
\<close>

theorem zero_or_two_containers:
  "map (\<lambda>m. length (querySelectorAll sel_container m))
      (qsa_incl sel_mermaid (doc (complete_pass sample_env three_blocks))) = [1, 0, 1]
   \<and> map (\<lambda>m. length (querySelectorAll sel_container m))
      (qsa_incl sel_mermaid (doc
        (renderMermaidDiagrams_after_run sample_env 0
          (renderMermaidDiagrams_after_run sample_env 0
            (renderMermaidDiagrams_after_delay sample_env 1
              (renderMermaidDiagrams_after_delay sample_env 0
                (theme_change sample_env (Some ''light'') one_block))))))) = [2]"
  by code_simp

end
